theory Spec2Isabelle
  imports Complex_Main "HOL-Library.Word" "HOL-Library.Log_Nat"
begin

unbundle bit_operations_syntax

section \<open>PicoDitDah: the morse tone generator and the WinKeyer parser\<close>

text \<open>
  The development follows \<^verbatim>\<open>src/cw_generator.cpp\<close> (the variant with envelope
  shaping, the one that has \<^verbatim>\<open>cw_keyshape\<close>) and \<^verbatim>\<open>src/winkeyer_parser.cpp\<close>.
  The header \<^verbatim>\<open>cw_generator.h\<close> is not among the sources: the constants it declares
  (\<^verbatim>\<open>audio_minfreq\<close>, \<^verbatim>\<open>audio_maxfreq\<close>, \<^verbatim>\<open>queue_max_char\<close>) are parameters of the
  model, and the counters of the class are taken to be \<^verbatim>\<open>uint32_t\<close>, the type of the
  constructor's \<^verbatim>\<open>sample_rate\<close> and \<^verbatim>\<open>sample_buffer_size\<close> and of the local
  \<^verbatim>\<open>inchar_index_start\<close>.
\<close>

subsection \<open>Ways in which a call does not return a value\<close>

datatype error =
    QueueBlocked      \<comment> \<open>\<^verbatim>\<open>queue_add_blocking\<close> on a full queue: nothing drains it meanwhile\<close>
  | BufferOverrun     \<comment> \<open>access to \<^verbatim>\<open>message[k]\<close> beyond the end of the buffer\<close>
  | TableOverrun      \<comment> \<open>access beyond the end of \<^verbatim>\<open>signal_buffer\<close> or \<^verbatim>\<open>cw_keyshape\<close>\<close>
  | FloatDomain       \<comment> \<open>a float operation yields no finite number, or a float does not fit the integer it is converted to\<close>
  | DivisionByZero    \<comment> \<open>integer division or remainder by zero\<close>
  | UsbBoot           \<comment> \<open>\<^verbatim>\<open>reset_usb_boot\<close>: the firmware leaves for the bootloader\<close>

subsection \<open>Floating point\<close>

text \<open>
  A finite \<^verbatim>\<open>float\<close> or \<^verbatim>\<open>double\<close> is the rational number it denotes. Every arithmetic
  operation is the exact operation followed by rounding to the format's precision (24 or 53
  significant bits), to nearest with ties to even, as IEEE 754 prescribes. Exponent range is
  not modelled: the magnitudes that occur are far from overflow and underflow.
\<close>

type_synonym cfloat = rat

definition pow2 :: "int \<Rightarrow> rat" where
  "pow2 e = (if 0 \<le> e then 2 ^ nat e else 1 / 2 ^ nat (- e))"

definition rne :: "rat \<Rightarrow> int" where
  "rne x = (let f = \<lfloor>x\<rfloor>; d = x - of_int f in
     if d < 1 / 2 then f else if 1 / 2 < d then f + 1 else if even f then f else f + 1)"

definition ilog2 :: "rat \<Rightarrow> int" where
  "ilog2 x = (let n = fst (quotient_of \<bar>x\<bar>); d = snd (quotient_of \<bar>x\<bar>); c = bitlen n - bitlen d
     in if pow2 c \<le> \<bar>x\<bar> then c else c - 1)"

definition fround :: "nat \<Rightarrow> rat \<Rightarrow> rat" where
  "fround p x = (if x = 0 then 0
     else let s = pow2 (int p - 1 - ilog2 x) in of_int (rne (x * s)) / s)"

definition fl32 :: "rat \<Rightarrow> cfloat" where
  "fl32 x = fround 24 x"

definition fl64 :: "rat \<Rightarrow> cfloat" where
  "fl64 x = fround 53 x"

definition fdiv32 :: "cfloat \<Rightarrow> cfloat \<Rightarrow> error + cfloat" where
  "fdiv32 a b = (if b = 0 then Inl FloatDomain else Inr (fl32 (a / b)))"

definition fdiv64 :: "cfloat \<Rightarrow> cfloat \<Rightarrow> error + cfloat" where
  "fdiv64 a b = (if b = 0 then Inl FloatDomain else Inr (fl64 (a / b)))"

definition ctrunc :: "rat \<Rightarrow> int" where
  "ctrunc x = (if 0 \<le> x then \<lfloor>x\<rfloor> else \<lceil>x\<rceil>)"

definition to_uint32 :: "cfloat \<Rightarrow> error + 32 word" where
  "to_uint32 x = (if 0 \<le> ctrunc x \<and> ctrunc x < 2 ^ 32 then Inr (word_of_int (ctrunc x))
     else Inl FloatDomain)"

definition to_int16 :: "cfloat \<Rightarrow> error + 16 word" where
  "to_int16 x = (if - (2 ^ 15) \<le> ctrunc x \<and> ctrunc x < 2 ^ 15 then Inr (word_of_int (ctrunc x))
     else Inl FloatDomain)"

definition of_u32 :: "32 word \<Rightarrow> cfloat" where
  "of_u32 w = fl32 (of_int (uint w))"

definition of_u16 :: "16 word \<Rightarrow> cfloat" where
  "of_u16 w = of_int (uint w)"

definition M_PI :: rat where
  "M_PI = 884279719003555 / 281474976710656"

subsection \<open>The generator\<close>

datatype CW_CHARACTERS = CHAR_DIT | CHAR_DAH | CHAR_PAUSE

datatype STATES = STATE_INIT | STATE_INIT_PAUSE | STATE_IDLE
  | STATE_DIT | STATE_DAH | STATE_DIT_PAUSE | STATE_DAH_PAUSE

text \<open>
  What the class takes from outside this file: the three constants of the header, and the
  sine and cosine of the C library, which map a \<^verbatim>\<open>double\<close> to a \<^verbatim>\<open>double\<close>.
\<close>

record platform =
  audio_minfreq :: "16 word"
  audio_maxfreq :: "16 word"
  queue_max_char :: nat
  c_sin :: "rat \<Rightarrow> rat"
  c_cos :: "rat \<Rightarrow> rat"

record CWGenerator =
  curstate :: STATES
  nextstate :: STATES
  curchar :: CW_CHARACTERS
  cw_sample_rate :: "32 word"
  cw_sample_buffer_size :: "32 word"
  cw_frequency :: "16 word"
  cw_wpm :: "16 word"
  cw_volume :: "16 word"
  cw_risetime :: cfloat
  cw_risetime_samples :: "32 word"
  signal_buffer :: "16 word list"
  cw_keyshape :: "cfloat list"
  signal_buffer_period :: "32 word"
  signal_dit_length_index :: "32 word"
  inchar_index :: "32 word"
  inchar_endindex :: "32 word"
  cw_character_queue :: "CW_CHARACTERS list"
  pixel :: "32 word"

definition DIT_UNITS :: "32 word" where "DIT_UNITS = 1"
definition DAH_UNITS :: "32 word" where "DAH_UNITS = 3"
definition INTRA_CHAR_PAUSE_UNITS :: "32 word" where "INTRA_CHAR_PAUSE_UNITS = 1"
definition INTER_CHAR_PAUSE_UNITS :: nat where "INTER_CHAR_PAUSE_UNITS = 3"

definition DEFAULT_FREQUENCY :: "16 word" where "DEFAULT_FREQUENCY = 700"
definition DEFAULT_WPM :: "16 word" where "DEFAULT_WPM = 20"
definition DEFAULT_VOLUME :: "16 word" where "DEFAULT_VOLUME = 100"
definition DEFAULT_RISETIME :: cfloat where "DEFAULT_RISETIME = 6"

definition WPM_MIN :: "16 word" where "WPM_MIN = 10"
definition WPM_MAX :: "16 word" where "WPM_MAX = 99"

definition WS2812_COLOR_PADDLE :: "32 word" where
  "WS2812_COLOR_PADDLE = (push_bit 8 255 OR push_bit 16 255) OR 255"
definition WS2812_COLOR_SERIAL :: "32 word" where
  "WS2812_COLOR_SERIAL = (push_bit 8 0 OR push_bit 16 255) OR 0"
definition WS2812_COLOR_OFF :: "32 word" where
  "WS2812_COLOR_OFF = (push_bit 8 0 OR push_bit 16 0) OR 0"

text \<open>Sequencing of calls that may not return.\<close>

definition and_then :: "error + 'a \<Rightarrow> ('a \<Rightarrow> error + 'b) \<Rightarrow> error + 'b" where
  "and_then r f = (case r of Inl e \<Rightarrow> Inl e | Inr v \<Rightarrow> f v)"

fun collect :: "(error + 'a) list \<Rightarrow> error + 'a list" where
  "collect [] = Inr []"
| "collect (r # rs) = and_then r (\<lambda>v. and_then (collect rs) (\<lambda>vs. Inr (v # vs)))"

text \<open>
  \<^verbatim>\<open>signal_buffer_period = ceil(cw_sample_rate / (float)(cw_frequency))\<close>
\<close>

definition tone_period :: "32 word \<Rightarrow> 16 word \<Rightarrow> error + 32 word" where
  "tone_period rate freq =
     and_then (fdiv32 (of_u32 rate) (of_u16 freq)) (\<lambda>q. to_uint32 (of_int \<lceil>q\<rceil>))"

text \<open>
  \<^verbatim>\<open>cw_risetime_samples = ceil(cw_risetime * cw_sample_rate / 1000) + 1\<close>
\<close>

definition risetime_samples :: "cfloat \<Rightarrow> 32 word \<Rightarrow> error + 32 word" where
  "risetime_samples rt rate =
     and_then (fdiv32 (fl32 (rt * of_u32 rate)) 1000) (\<lambda>q. to_uint32 (fl32 (of_int \<lceil>q\<rceil> + 1)))"

text \<open>
  \<^verbatim>\<open>signal_buffer[i] = cw_volume * sin(i * 2.0 * M_PI * (float)(cw_frequency) / (float)(cw_sample_rate))\<close>,
  evaluated in \<^verbatim>\<open>double\<close> and converted to \<^verbatim>\<open>int16_t\<close>.
\<close>

definition tone_sample :: "platform \<Rightarrow> 16 word \<Rightarrow> 16 word \<Rightarrow> 32 word \<Rightarrow> nat \<Rightarrow> error + 16 word" where
  "tone_sample P vol freq rate i =
     and_then (fdiv64 (fl64 (fl64 (fl64 (of_nat i * 2) * M_PI) * of_u16 freq)) (of_u32 rate))
       (\<lambda>a. to_int16 (fl64 (of_u16 vol * c_sin P a)))"

text \<open>
  \<^verbatim>\<open>cw_keyshape[i] = abs(0.42 - 0.50 * cos(M_PI * i / (cw_risetime_samples - 1))
     + 0.08 * cos(2 * M_PI * i / (cw_risetime_samples - 1)))\<close>,
  evaluated in \<^verbatim>\<open>double\<close> (\<^verbatim>\<open>abs\<close> being the overload for \<^verbatim>\<open>double\<close>) and stored as
  \<^verbatim>\<open>float\<close>.
\<close>

definition keyshape_sample :: "platform \<Rightarrow> 32 word \<Rightarrow> nat \<Rightarrow> error + cfloat" where
  "keyshape_sample P rs i =
     and_then (fdiv64 (fl64 (M_PI * of_nat i)) (of_int (uint (rs - 1)))) (\<lambda>a.
     and_then (fdiv64 (fl64 (fl64 (2 * M_PI) * of_nat i)) (of_int (uint (rs - 1)))) (\<lambda>b.
       Inr (fl32 \<bar>fl64 (fl64 (fl64 (42 / 100) - fl64 ((1 / 2) * c_cos P a))
                  + fl64 (fl64 (8 / 100) * c_cos P b))\<bar>)))"

text \<open>
  \<^verbatim>\<open>signal_dit_length_index = (60 / (50 * (float)(cw_wpm))) * cw_sample_rate\<close>: the
  product is a \<^verbatim>\<open>float\<close>, and the assignment to the counter drops its fraction.
\<close>

definition dit_samples :: "16 word \<Rightarrow> 32 word \<Rightarrow> error + 32 word" where
  "dit_samples wpm rate =
     and_then (fdiv32 60 (fl32 (50 * of_u16 wpm))) (\<lambda>t. to_uint32 (fl32 (t * of_u32 rate)))"

text \<open>
  \<^verbatim>\<open>signal_dit_length_index = ceil((float)(signal_dit_length_index) / signal_buffer_period)
     * signal_buffer_period\<close>
\<close>

definition whole_periods :: "32 word \<Rightarrow> 32 word \<Rightarrow> error + 32 word" where
  "whole_periods n period =
     and_then (fdiv32 (of_u32 n) (of_u32 period))
       (\<lambda>q. to_uint32 (fl32 (of_int \<lceil>q\<rceil> * of_u32 period)))"

text \<open>
  \<^verbatim>\<open>init_buffers\<close> first limits the frequency to the valid range, then computes the
  period, the length of the envelope, both tables and the dit length, and resets
  \<^verbatim>\<open>inchar_index\<close>.
\<close>

definition limit_frequency :: "platform \<Rightarrow> 16 word \<Rightarrow> 16 word" where
  "limit_frequency P freq =
     (let f1 = (if freq > audio_maxfreq P then audio_maxfreq P else freq)
      in if f1 < audio_minfreq P then audio_minfreq P else f1)"

definition init_buffers :: "platform \<Rightarrow> CWGenerator \<Rightarrow> error + CWGenerator" where
  "init_buffers P g =
     (let f = limit_frequency P (cw_frequency g)
      in and_then (tone_period (cw_sample_rate g) f) (\<lambda>period.
         and_then (risetime_samples (cw_risetime g) (cw_sample_rate g)) (\<lambda>rs.
         and_then (collect (map (tone_sample P (cw_volume g) f (cw_sample_rate g))
                     [0 ..< unat period])) (\<lambda>tone.
         and_then (collect (map (keyshape_sample P rs) [0 ..< unat rs])) (\<lambda>shape.
         and_then (dit_samples (cw_wpm g) (cw_sample_rate g)) (\<lambda>d0.
         and_then (whole_periods d0 period) (\<lambda>d1.
           Inr (g\<lparr>cw_frequency := f, signal_buffer_period := period,
                  cw_risetime_samples := rs, signal_buffer := tone, cw_keyshape := shape,
                  signal_dit_length_index := d1, inchar_index := 0\<rparr>))))))))"

text \<open>
  The constructor. It does not assign \<^verbatim>\<open>nextstate\<close> and \<^verbatim>\<open>curchar\<close>; they start as the
  caller of the model says.
\<close>

definition CWGenerator_new ::
  "platform \<Rightarrow> STATES \<Rightarrow> CW_CHARACTERS \<Rightarrow> 32 word \<Rightarrow> 32 word \<Rightarrow> 16 word \<Rightarrow> 16 word \<Rightarrow> 16 word
     \<Rightarrow> cfloat \<Rightarrow> error + CWGenerator" where
  "CWGenerator_new P ns cc sample_rate sample_buffer_size freq wpm volume risetime =
     and_then (init_buffers P
       \<lparr>curstate = STATE_INIT, nextstate = ns, curchar = cc,
        cw_sample_rate = sample_rate, cw_sample_buffer_size = sample_buffer_size,
        cw_frequency = freq, cw_wpm = wpm,
        cw_volume = word_of_int (uint volume * 32767 div 100),
        cw_risetime = risetime, cw_risetime_samples = 0,
        signal_buffer = [], cw_keyshape = [], signal_buffer_period = 0,
        signal_dit_length_index = 0, inchar_index = 0, inchar_endindex = 0,
        cw_character_queue = [], pixel = 0\<rparr>)
       (\<lambda>g. Inr (g\<lparr>pixel := WS2812_COLOR_OFF, cw_character_queue := []\<rparr>))"

definition clear_queue :: "CWGenerator \<Rightarrow> CWGenerator" where
  "clear_queue g = g\<lparr>cw_character_queue := [],
     curchar := (if cw_character_queue g = [] then curchar g else last (cw_character_queue g))\<rparr>"

definition put_pixel :: "32 word \<Rightarrow> CWGenerator \<Rightarrow> CWGenerator" where
  "put_pixel pixel_grb g = g\<lparr>pixel := pixel_grb\<rparr>"

definition set_frequency :: "platform \<Rightarrow> 16 word \<Rightarrow> CWGenerator \<Rightarrow> error + CWGenerator" where
  "set_frequency P freq g = init_buffers P (g\<lparr>cw_frequency := freq\<rparr>)"

definition get_frequency :: "CWGenerator \<Rightarrow> 16 word" where
  "get_frequency g = cw_frequency g"

definition set_wpm :: "platform \<Rightarrow> 16 word \<Rightarrow> CWGenerator \<Rightarrow> error + CWGenerator" where
  "set_wpm P wpm g =
     (let g1 = g\<lparr>cw_wpm := (if wpm < WPM_MIN then WPM_MIN else wpm)\<rparr>;
          g2 = g1\<lparr>cw_wpm := (if wpm > WPM_MAX then WPM_MAX else cw_wpm g1)\<rparr>
      in init_buffers P g2)"

definition get_wpm :: "CWGenerator \<Rightarrow> 16 word" where
  "get_wpm g = cw_wpm g"

text \<open>
  Modelled from the spec: \<^verbatim>\<open>CWGenerator::set_risetime\<close>, which the parser calls and whose
  body is not among the sources. The spec has every setter store its value and regenerate
  the tables.
\<close>

definition set_risetime :: "platform \<Rightarrow> cfloat \<Rightarrow> CWGenerator \<Rightarrow> error + CWGenerator" where
  "set_risetime P rt g = init_buffers P (g\<lparr>cw_risetime := rt\<rparr>)"

definition queue_add_blocking :: "platform \<Rightarrow> CW_CHARACTERS \<Rightarrow> CWGenerator \<Rightarrow> error + CWGenerator" where
  "queue_add_blocking P ch g =
     (if length (cw_character_queue g) < queue_max_char P
      then Inr (g\<lparr>cw_character_queue := cw_character_queue g @ [ch]\<rparr>)
      else Inl QueueBlocked)"

fun add_all :: "platform \<Rightarrow> CW_CHARACTERS list \<Rightarrow> CWGenerator \<Rightarrow> error + CWGenerator" where
  "add_all P [] g = Inr g"
| "add_all P (c # cs) g = and_then (queue_add_blocking P c g) (add_all P cs)"

definition to_cwchar :: "char \<Rightarrow> CW_CHARACTERS" where
  "to_cwchar c = (if c = CHR ''.'' then CHAR_DIT else if c = CHR ''-'' then CHAR_DAH else CHAR_PAUSE)"

definition send_character :: "platform \<Rightarrow> string \<Rightarrow> CWGenerator \<Rightarrow> error + CWGenerator" where
  "send_character P ch g =
     and_then (add_all P (map to_cwchar (take 10 ch)) g)
       (add_all P (replicate (INTER_CHAR_PAUSE_UNITS - 1) CHAR_PAUSE))"

definition set_state :: "CW_CHARACTERS \<Rightarrow> 32 word \<Rightarrow> CWGenerator \<Rightarrow> CWGenerator" where
  "set_state ch ws2812_color g =
     (let g1 = put_pixel ws2812_color g
      in case ch of
           CHAR_PAUSE \<Rightarrow>
             g1\<lparr>nextstate := STATE_IDLE,
                inchar_endindex := signal_dit_length_index g1 * INTRA_CHAR_PAUSE_UNITS,
                curstate := (if curstate g1 = STATE_DIT then STATE_DIT_PAUSE else STATE_DAH_PAUSE)\<rparr>
         | CHAR_DIT \<Rightarrow>
             g1\<lparr>inchar_endindex := signal_dit_length_index g1 * DIT_UNITS, curstate := STATE_DIT\<rparr>
         | CHAR_DAH \<Rightarrow>
             g1\<lparr>inchar_endindex := signal_dit_length_index g1 * DAH_UNITS, curstate := STATE_DAH\<rparr>)"

text \<open>
  \<^verbatim>\<open>queue_try_remove\<close> takes the oldest symbol into \<^verbatim>\<open>curchar\<close>, if there is one.
\<close>

definition queue_try_remove :: "CWGenerator \<Rightarrow> bool \<times> CWGenerator" where
  "queue_try_remove g =
     (case cw_character_queue g of
        [] \<Rightarrow> (False, g)
      | c # cs \<Rightarrow> (True, g\<lparr>cw_character_queue := cs, curchar := c\<rparr>))"

text \<open>
  One tick of the state machine. \<open>dit\<close> and \<open>dah\<close> say whether the debouncer reads the
  paddle contact as closed (\<^verbatim>\<open>debouncer.read(..) == 0\<close>) during this tick.
\<close>

definition idle_tick :: "bool \<Rightarrow> bool \<Rightarrow> CWGenerator \<Rightarrow> CWGenerator" where
  "idle_tick dit dah g =
     (let g1 = g\<lparr>inchar_index := 0\<rparr>;
          g2 = (if nextstate g1 = STATE_DIT then
                  set_state CHAR_DIT WS2812_COLOR_PADDLE (clear_queue g1)
                else if nextstate g1 = STATE_DAH then
                  set_state CHAR_DAH WS2812_COLOR_PADDLE (clear_queue g1)
                else if dit then set_state CHAR_DIT WS2812_COLOR_PADDLE (clear_queue g1)
                else if dah then set_state CHAR_DAH WS2812_COLOR_PADDLE (clear_queue g1)
                else (case queue_try_remove g1 of
                        (True, g') \<Rightarrow> set_state (curchar g') WS2812_COLOR_SERIAL g'
                      | (False, g') \<Rightarrow> put_pixel WS2812_COLOR_OFF g'))
      in g2\<lparr>nextstate := STATE_IDLE\<rparr>)"

definition expiry_tick :: "bool \<Rightarrow> bool \<Rightarrow> CWGenerator \<Rightarrow> CWGenerator" where
  "expiry_tick dit dah g =
     (let g1 = g\<lparr>inchar_index := 0\<rparr>
      in case curstate g1 of
           STATE_DIT \<Rightarrow> set_state CHAR_PAUSE WS2812_COLOR_OFF g1
         | STATE_DAH \<Rightarrow> set_state CHAR_PAUSE WS2812_COLOR_OFF g1
         | STATE_DIT_PAUSE \<Rightarrow>
             (if dah then set_state CHAR_DAH WS2812_COLOR_PADDLE g1
              else g1\<lparr>curstate := STATE_IDLE\<rparr>)
         | STATE_DAH_PAUSE \<Rightarrow>
             (if dit then set_state CHAR_DIT WS2812_COLOR_PADDLE g1
              else g1\<lparr>curstate := STATE_IDLE\<rparr>)
         | STATE_INIT_PAUSE \<Rightarrow> g1\<lparr>curstate := STATE_IDLE\<rparr>
         | _ \<Rightarrow> g1\<lparr>curstate := STATE_IDLE\<rparr>)"

definition update_statemachine :: "bool \<Rightarrow> bool \<Rightarrow> CWGenerator \<Rightarrow> error + CWGenerator" where
  "update_statemachine dit dah g =
     and_then
       (if curstate g = STATE_INIT then
          (if signal_buffer_period g = 0 then Inl DivisionByZero
           else Inr (g\<lparr>inchar_index := 0,
                       inchar_endindex := cw_sample_rate g div signal_buffer_period g,
                       curstate := STATE_INIT_PAUSE\<rparr>))
        else if curstate g = STATE_IDLE then Inr (idle_tick dit dah g)
        else if inchar_index g > inchar_endindex g then Inr (expiry_tick dit dah g)
        else if curstate g = STATE_DIT_PAUSE then
          Inr (if dah then g\<lparr>nextstate := STATE_DAH\<rparr> else g)
        else if curstate g = STATE_DAH_PAUSE then
          Inr (if dit then g\<lparr>nextstate := STATE_DIT\<rparr> else g)
        else Inr g)
       (\<lambda>g1. Inr (g1\<lparr>inchar_index := inchar_index g1 + cw_sample_buffer_size g1\<rparr>))"

text \<open>A run of ticks, one pair of paddle readings per tick.\<close>

fun run_ticks :: "(bool \<times> bool) list \<Rightarrow> CWGenerator \<Rightarrow> error + CWGenerator" where
  "run_ticks [] g = Inr g"
| "run_ticks ((dit, dah) # ps) g = and_then (update_statemachine dit dah g) (run_ticks ps)"

subsection \<open>The audio buffer\<close>

definition tbl :: "'a list \<Rightarrow> int \<Rightarrow> error + 'a" where
  "tbl xs k = (if 0 \<le> k \<and> k < int (length xs) then Inr (xs ! nat k) else Inl TableOverrun)"




definition get_audio_buffer_size :: "CWGenerator \<Rightarrow> 32 word" where
  "get_audio_buffer_size g = 2 * cw_sample_buffer_size g"

subsection \<open>The parser\<close>

text \<open>
  \<^verbatim>\<open>WK123_CW_MAPPING\<close>: the morse pattern of each character from 0x20 to 0x5D.
\<close>

definition WK123_CW_MAPPING :: "string list" where
  "WK123_CW_MAPPING =
    [''       '', '''', ''.-..-.'', '''', ''...-..-'', '''', '''', ''.----.'',
     ''-.--.'', ''-.--.-'', '''', ''.-.-.'', ''--..--'', ''-....-'', ''.-.-.-'', ''.--.-'',
     ''-----'', ''.----'', ''..---'', ''...--'', ''....-'', ''.....'', ''-....'', ''--...'',
     ''---..'', ''----.'', ''-.--.'', ''.-.-'', ''.-.-.'', ''-...-'', ''...-.-'', ''..--..'',
     ''.--.-.'', ''.-'', ''-...'', ''-.-.'', ''-..'', ''.'', ''..-.'', ''--.'',
     ''....'', ''..'', ''.---'', ''-.-'', ''.-..'', ''--'', ''-.'', ''---'',
     ''.--.'', ''--.-'', ''.-.'', ''...'', ''-'', ''..-'', ''...-'', ''.--'',
     ''-..-'', ''-.--'', ''..--'', ''.-...'', ''-..-.'', ''-.--.'']"

definition WK12_FREQUENCY_LIST :: "16 word list" where
  "WK12_FREQUENCY_LIST = [0, 4000, 2000, 1333, 1000, 800, 666, 571, 500, 444, 400]"

definition cw_mapping_min_ascii :: "8 word" where "cw_mapping_min_ascii = 0x20"
definition cw_mapping_max_ascii :: "8 word" where "cw_mapping_max_ascii = 0x5D"

record WinKeyerParser =
  cw_generator :: CWGenerator
  wk_version :: "8 word"

text \<open>
  The message is the caller's whole buffer; \<open>len\<close> bytes of it were received, and what
  lies behind them is whatever the buffer held before. Reading or writing \<^verbatim>\<open>message[k]\<close>
  is defined as long as \<open>k\<close> is inside the buffer.
\<close>

definition rd :: "8 word list \<Rightarrow> nat \<Rightarrow> error + 8 word" where
  "rd m k = (if k < length m then Inr (m ! k) else Inl BufferOverrun)"

definition wr :: "8 word list \<Rightarrow> nat \<Rightarrow> 8 word \<Rightarrow> error + 8 word list" where
  "wr m k v = (if k < length m then Inr (m[k := v]) else Inl BufferOverrun)"

definition with_generator :: "WinKeyerParser \<Rightarrow> error + CWGenerator \<Rightarrow> error + WinKeyerParser" where
  "with_generator wk r = and_then r (\<lambda>g. Inr (wk\<lparr>cw_generator := g\<rparr>))"

text \<open>
  \<^verbatim>\<open>parse_admin_command\<close> returns the number of reply bytes, the buffer, \<^verbatim>\<open>*offset\<close> and
  the parser. It is private and called with \<open>offs < len\<close> only, where the unsigned
  \<^verbatim>\<open>length - offs\<close> is the difference of the two numbers.
\<close>

definition parse_admin_command ::
  "platform \<Rightarrow> 8 word list \<Rightarrow> nat \<Rightarrow> nat \<Rightarrow> WinKeyerParser
     \<Rightarrow> error + (nat \<times> 8 word list \<times> nat \<times> WinKeyerParser)" where
  "parse_admin_command P m offs len wk =
     (if len - offs < 2 then Inr (0, m, offs + 1, wk)
      else and_then (rd m (offs + 1)) (\<lambda>c.
        if c = 2 then
          and_then (wr m 0 31) (\<lambda>m1. and_then (wr m1 1 3) (\<lambda>m2.
            Inr (2, m2, offs + 1, wk\<lparr>wk_version := 1\<rparr>)))
        else if c = 4 then
          (if len - offs \<ge> 3
           then and_then (rd m (offs + 2)) (\<lambda>v. and_then (wr m 0 v) (\<lambda>m1.
                  Inr (1, m1, offs + 2, wk)))
           else Inr (0, m, offs + 1, wk))
        else if c = 5 \<or> c = 6 \<or> c = 7 then
          and_then (wr m 0 0) (\<lambda>m1. Inr (1, m1, offs + 1, wk))
        else if c = 9 then
          and_then (wr m 0 31) (\<lambda>m1. Inr (1, m1, offs + 1, wk))
        else if c = 10 then Inr (0, m, offs + 1, wk\<lparr>wk_version := 1\<rparr>)
        else if c = 11 then Inr (0, m, offs + 1, wk\<lparr>wk_version := 2\<rparr>)
        else if c = 20 then Inr (0, m, offs + 1, wk\<lparr>wk_version := 3\<rparr>)
        else if c = 21 then
          and_then (wr m 0 52) (\<lambda>m1. Inr (1, m1, offs + 1, wk))
        else if c = 23 then
          and_then (wr m 0 3) (\<lambda>m1. Inr (1, m1, offs + 1, wk))
        else if c = 24 then
          and_then (wr m 0 1) (\<lambda>m1. Inr (1, m1, offs + 1, wk))
        else if c = 26 then
          (if len - offs \<ge> 3
           then and_then (rd m (offs + 2)) (\<lambda>v.
                  if v \<ge> 1 \<and> v \<le> 50
                  then and_then (with_generator wk
                         (set_risetime P (of_int (uint v)) (cw_generator wk)))
                         (\<lambda>wk1. Inr (0, m, offs + 2, wk1))
                  else Inr (0, m, offs + 2, wk))
           else Inr (0, m, offs + 2, wk))
        else if c = 27 then
          and_then (rd m (offs + 2)) (\<lambda>v.
            and_then (with_generator wk
              (set_frequency P (word_of_int (uint v * 10)) (cw_generator wk)))
              (\<lambda>wk1. Inr (0, m, offs + 2, wk1)))
        else if c = 28 then Inl UsbBoot
        else Inr (0, m, offs + 1, wk)))"

text \<open>
  One round of the loop of \<^verbatim>\<open>parse_message\<close>, at position \<open>i\<close>: it either returns the
  number of reply bytes, or goes on after skipping \<open>k\<close> parameter bytes.
\<close>

datatype step =
    Return nat "8 word list" WinKeyerParser
  | Next nat "8 word list" WinKeyerParser

definition sidetone_freq :: "platform \<Rightarrow> 8 word list \<Rightarrow> nat \<Rightarrow> WinKeyerParser \<Rightarrow> error + WinKeyerParser" where
  "sidetone_freq P m i wk =
     (if wk_version wk < 3 then
        and_then (rd m (i + 1)) (\<lambda>p.
          if p \<ge> 1 \<and> p \<le> 0x0a
          then with_generator wk
                 (set_frequency P (WK12_FREQUENCY_LIST ! unat p) (cw_generator wk))
          else Inr wk)
      else if wk_version wk = 3 then
        and_then (rd m (i + 1)) (\<lambda>p.
          if p \<ge> 15 \<and> p \<le> 125
          then with_generator wk
                 (set_frequency P (word_of_int (62500 div uint p)) (cw_generator wk))
          else Inr wk)
      else Inr wk)"

definition parse_byte ::
  "platform \<Rightarrow> nat \<Rightarrow> nat \<Rightarrow> 8 word list \<Rightarrow> WinKeyerParser \<Rightarrow> error + step" where
  "parse_byte P len i m wk =
     and_then (rd m i) (\<lambda>b0.
       let b = (if b0 \<ge> 0x61 \<and> b0 \<le> 0x7a then b0 - 0x20 else b0);
           m1 = m[i := b]
       in if b \<ge> cw_mapping_min_ascii \<and> b \<le> cw_mapping_max_ascii then
            and_then (with_generator wk
              (send_character P (WK123_CW_MAPPING ! unat (b - cw_mapping_min_ascii))
                 (cw_generator wk)))
              (\<lambda>wk1. Inr (Next 0 m1 wk1))
          else if b = 0x00 then
            and_then (parse_admin_command P m1 i len wk)
              (\<lambda>(n, m2, offs, wk1). Inr (Return n m2 wk1))
          else if b = 0x01 then
            (if len \<ge> 2
             then and_then (sidetone_freq P m1 i wk) (\<lambda>wk1. Inr (Next 1 m1 wk1))
             else Inr (Next 0 m1 wk))
          else if b = 0x02 then
            (if len \<ge> 2
             then and_then (rd m1 (i + 1)) (\<lambda>p.
                    if p \<ge> 5 \<and> p \<le> 99
                    then and_then (with_generator wk
                           (set_wpm P (ucast p) (cw_generator wk)))
                           (\<lambda>wk1. Inr (Next 1 m1 wk1))
                    else Inr (Next 0 m1 wk))
             else Inr (Next 0 m1 wk))
          else if b = 0x07 then
            and_then (wr m1 0 (ucast ((get_wpm (cw_generator wk) AND 0x3F) OR 0x80)))
              (\<lambda>m2. Inr (Return 1 m2 wk))
          else if b = 0x0E then Inr (Next 0 m1 (wk\<lparr>wk_version := 3\<rparr>))
          else if b = 0x15 then
            and_then (wr m1 0 0xC0) (\<lambda>m2. Inr (Return 1 m2 wk))
          else Inr (Next 0 m1 wk))"

function parse_loop ::
  "platform \<Rightarrow> nat \<Rightarrow> nat \<Rightarrow> 8 word list \<Rightarrow> WinKeyerParser
     \<Rightarrow> error + (nat \<times> 8 word list \<times> WinKeyerParser)" where
  "parse_loop P len i m wk =
     (if i < len then
        (case parse_byte P len i m wk of
           Inl e \<Rightarrow> Inl e
         | Inr (Return n m1 wk1) \<Rightarrow> Inr (n, m1, wk1)
         | Inr (Next k m1 wk1) \<Rightarrow> parse_loop P len (i + k + 1) m1 wk1)
      else Inr (0, m, wk))"
  by pat_completeness auto
termination
  by (relation "measure (\<lambda>(P, len, i, m, wk). len - i)") auto

text \<open>
  \<^verbatim>\<open>parse_message\<close>: the reply is written to the front of the buffer, its length is
  returned. The buffer is never a null pointer here.
\<close>

definition parse_message ::
  "platform \<Rightarrow> 8 word list \<Rightarrow> nat \<Rightarrow> nat \<Rightarrow> WinKeyerParser
     \<Rightarrow> error + (nat \<times> 8 word list \<times> WinKeyerParser)" where
  "parse_message P m len maxsize wk =
     (if len = 0 then Inr (0, m, wk) else parse_loop P len 0 m wk)"

definition WinKeyerParser_new :: "CWGenerator \<Rightarrow> WinKeyerParser" where
  "WinKeyerParser_new cwgen = \<lparr>cw_generator = cwgen, wk_version = 3\<rparr>"

subsection \<open>Configurations and a reference platform\<close>

text \<open>
  The magnitudes for which every float of \<^verbatim>\<open>init_buffers\<close> is finite and fits the integer it
  is stored in: a sample rate below \<open>2^18\<close> Hz, a speed that is not zero, a volume of at
  most 100 percent, a rise time of at most 50 ms, a frequency range that excludes 0, and a
  sine that stays within \<open>[-1, 1]\<close>.
\<close>

definition sane_config :: "platform \<Rightarrow> CWGenerator \<Rightarrow> bool" where
  "sane_config P g \<longleftrightarrow>
     audio_minfreq P \<noteq> 0 \<and> cw_sample_rate g \<noteq> 0 \<and> uint (cw_sample_rate g) < 2 ^ 18
     \<and> cw_wpm g \<noteq> 0 \<and> uint (cw_volume g) \<le> 32767
     \<and> 0 < cw_risetime g \<and> cw_risetime g \<le> 50
     \<and> (\<forall>a. \<bar>c_sin P a\<bar> \<le> 1)"

text \<open>
  A platform to run the model on: a frequency range of 100 Hz to 5000 Hz, a queue of 64
  symbols, and Bhaskara's rational approximation in place of the library's sine and cosine.
\<close>

definition bhaskara_sin :: "rat \<Rightarrow> rat" where
  "bhaskara_sin x =
     (let t = x - 2 * M_PI * of_int \<lfloor>x / (2 * M_PI)\<rfloor>;
          b = (\<lambda>u. 16 * u * (M_PI - u) / (5 * M_PI * M_PI - 4 * u * (M_PI - u)))
      in max (- 1) (min 1 (fl64 (if t \<le> M_PI then b t else - b (t - M_PI)))))"

definition reference_platform :: platform where
  "reference_platform =
     \<lparr>audio_minfreq = 100, audio_maxfreq = 5000, queue_max_char = 64,
      c_sin = bhaskara_sin, c_cos = (\<lambda>x. bhaskara_sin (x + M_PI / 2))\<rparr>"

text \<open>
  The generator as \<^verbatim>\<open>main\<close> creates it, for 48 samples per millisecond, before the first
  tick.
\<close>

definition power_on :: "error + CWGenerator" where
  "power_on = CWGenerator_new reference_platform STATE_IDLE CHAR_PAUSE 48000 48
     DEFAULT_FREQUENCY DEFAULT_WPM DEFAULT_VOLUME DEFAULT_RISETIME"

text \<open>
  What the caller of \<^verbatim>\<open>parse_message\<close> gets to see: the reply bytes at the front of the
  buffer, and the parser with its generator.
\<close>

definition outcome ::
  "error + (nat \<times> 8 word list \<times> WinKeyerParser) \<Rightarrow> error + (8 word list \<times> WinKeyerParser)" where
  "outcome r = map_sum id (\<lambda>(n, m, wk). (take n m, wk)) r"

text \<open>
  The bytes that make up the admin command at position \<open>i\<close> of a message of \<open>len\<close> bytes:
  the byte 0x00 alone when it is the last one received; the byte 0x00, the sub-command and
  one parameter for the sub-commands 4 (echo) and 26 (rise time) when the parameter was
  received, and for sub-command 27 (frequency) in every case; the byte 0x00 and the
  sub-command otherwise.
\<close>

definition admin_command_bytes :: "8 word list \<Rightarrow> nat \<Rightarrow> nat \<Rightarrow> nat" where
  "admin_command_bytes m i len =
     (if len - i < 2 then 1
      else if m ! (i + 1) = 27 then 3
      else if (m ! (i + 1) = 4 \<or> m ! (i + 1) = 26) \<and> 3 \<le> len - i then 3
      else 2)"

subsection \<open>The statements about the dit length and the samples\<close>

text \<open>
  The dit length in words: the value \<open>(60 / (50 * wpm)) * sample_rate\<close>, as a number,
  rounded up to the next whole multiple of the tone period.
\<close>

definition round_up_to :: "rat \<Rightarrow> int \<Rightarrow> int" where
  "round_up_to x period = \<lceil>x / of_int period\<rceil> * period"

definition dit_length_stated :: "int \<Rightarrow> int \<Rightarrow> int \<Rightarrow> int" where
  "dit_length_stated wpm rate period =
     round_up_to ((60 / (50 * of_int wpm)) * of_int rate) period"

text \<open>
  The same value as the processor has it: a single-precision quotient, a single-precision
  product, and no fraction once it is stored in the integer counter.
\<close>

definition dit_float :: "int \<Rightarrow> int \<Rightarrow> rat" where
  "dit_float wpm rate = fl32 (fl32 (60 / of_int (50 * wpm)) * of_int rate)"

definition dit_length_truncated :: "int \<Rightarrow> int \<Rightarrow> int \<Rightarrow> int" where
  "dit_length_truncated wpm rate period = round_up_to (of_int \<lfloor>dit_float wpm rate\<rfloor>) period"

text \<open>
  The generator after the serial commands for a sidetone of 444 Hz (table entry 9 of the
  modes 1 and 2) and a speed of 66 wpm.
\<close>

definition tuned_444_66 :: "error + CWGenerator" where
  "tuned_444_66 =
     and_then power_on (\<lambda>g.
     and_then (set_frequency reference_platform (WK12_FREQUENCY_LIST ! 9) g)
       (set_wpm reference_platform 66))"








section \<open>Properties of the floating-point model\<close>

declare of_int_uint [simp del]

lemma pow2_powi: "pow2 e = 2 powi e"
  by (simp add: pow2_def power_int_def inverse_eq_divide power_one_over)

lemma pow2_pos [simp]: "0 < pow2 e"
  by (simp add: pow2_powi)

lemma pow2_nz [simp]: "pow2 e \<noteq> 0"
  by (metis pow2_pos less_irrefl)

lemma pow2_add: "pow2 (a + b) = pow2 a * pow2 b"
  by (simp add: pow2_powi power_int_add)

lemma pow2_strict_mono: "a < b \<Longrightarrow> pow2 a < pow2 b"
  by (simp add: pow2_powi power_int_strict_increasing)

lemma pow2_mono: "a \<le> b \<Longrightarrow> pow2 a \<le> pow2 b"
  by (simp add: pow2_powi power_int_increasing)

lemma pow2_less_iff [simp]: "pow2 a < pow2 b \<longleftrightarrow> a < b"
  using pow2_strict_mono [of a b] pow2_mono [of b a] by (auto simp: not_le [symmetric])

lemma pow2_le_iff [simp]: "pow2 a \<le> pow2 b \<longleftrightarrow> a \<le> b"
  using pow2_strict_mono [of b a] pow2_mono [of a b] by (auto simp: not_less [symmetric])

lemma pow2_int: "0 \<le> e \<Longrightarrow> pow2 e = of_int (2 ^ nat e)"
  by (simp add: pow2_def)

lemma pow2_0 [simp]: "pow2 0 = 1"
  by (simp add: pow2_def)

lemma ilog2_bounds:
  assumes "x \<noteq> 0"
  shows "pow2 (ilog2 x) \<le> \<bar>x\<bar> \<and> \<bar>x\<bar> < pow2 (ilog2 x + 1)"
proof -
  obtain n d where q: "quotient_of \<bar>x\<bar> = (n, d)"
    by (cases "quotient_of \<bar>x\<bar>")
  have d: "0 < d" using q by (rule quotient_of_denom_pos)
  have x: "\<bar>x\<bar> = of_int n / of_int d" using q by (rule quotient_of_div)
  have n: "0 < n"
  proof -
    have "0 < \<bar>x\<bar>" using assms by simp
    then have "0 < (of_int n :: rat) / of_int d" using x by simp
    then show ?thesis using d by (simp add: zero_less_divide_iff)
  qed
  define c where "c = bitlen n - bitlen d"
  have bn: "1 \<le> bitlen n" and bd: "1 \<le> bitlen d"
    using n d by (auto simp: bitlen_alt_def)
  have bb: "pow2 (bitlen k - 1) \<le> of_int k \<and> (of_int k :: rat) < pow2 (bitlen k)"
    if "0 < k" "1 \<le> bitlen k" for k
  proof -
    have "(of_int (2 ^ nat (bitlen k - 1)) :: rat) \<le> of_int k"
      using bitlen_bounds [OF that(1)] by (simp only: of_int_le_iff)
    moreover have "(of_int k :: rat) < of_int (2 ^ nat (bitlen k))"
      using bitlen_bounds [OF that(1)] by (simp only: of_int_less_iff)
    ultimately show ?thesis using that(2) by (simp only: pow2_int)
  qed
  have n1: "pow2 (bitlen n - 1) \<le> of_int n" and n2: "(of_int n :: rat) < pow2 (bitlen n)"
    using bb [OF n bn] by simp_all
  have d1: "pow2 (bitlen d - 1) \<le> of_int d" and d2: "(of_int d :: rat) < pow2 (bitlen d)"
    using bb [OF d bd] by simp_all
  have dpos: "(0::rat) < of_int d" using d by simp
  have up: "\<bar>x\<bar> < pow2 (c + 1)"
  proof -
    have "of_int n < pow2 (c + 1) * pow2 (bitlen d - 1)"
      using n2 by (simp add: c_def flip: pow2_add)
    also have "\<dots> \<le> pow2 (c + 1) * of_int d"
      using d1 by simp
    finally show ?thesis using dpos by (simp add: x pos_divide_less_eq)
  qed
  have lo: "pow2 (c - 1) < \<bar>x\<bar>"
  proof -
    have "pow2 (c - 1) * of_int d < pow2 (c - 1) * pow2 (bitlen d)"
      using d2 by simp
    also have "\<dots> = pow2 (bitlen n - 1)"
      by (simp add: c_def flip: pow2_add)
    also have "\<dots> \<le> of_int n" by (rule n1)
    finally show ?thesis using dpos by (simp add: x pos_less_divide_eq)
  qed
  have il: "ilog2 x = (if pow2 c \<le> \<bar>x\<bar> then c else c - 1)"
    by (simp add: ilog2_def q c_def Let_def)
  show ?thesis
  proof (cases "pow2 c \<le> \<bar>x\<bar>")
    case True
    then show ?thesis using up by (simp add: il)
  next
    case False
    then show ?thesis using lo by (simp add: il)
  qed
qed


lemma ilog2_unique:
  assumes "pow2 e \<le> \<bar>x\<bar>" "\<bar>x\<bar> < pow2 (e + 1)"
  shows "ilog2 x = e"
proof -
  have "0 < \<bar>x\<bar>" using pow2_pos [of e] assms(1) by (rule less_le_trans)
  then have nz: "x \<noteq> 0" by simp
  have "pow2 (ilog2 x) < pow2 (e + 1)" "pow2 e < pow2 (ilog2 x + 1)"
    using ilog2_bounds [OF nz] assms by linarith+
  then show ?thesis by simp
qed

lemma ilog2_less:
  assumes "x \<noteq> 0" "\<bar>x\<bar> < pow2 k"
  shows "ilog2 x < k"
proof -
  have "pow2 (ilog2 x) < pow2 k" using ilog2_bounds [OF assms(1)] assms(2) by linarith
  then show ?thesis by simp
qed

lemma ilog2_ge:
  assumes "pow2 k \<le> \<bar>x\<bar>"
  shows "k \<le> ilog2 x"
proof -
  have "0 < \<bar>x\<bar>" using pow2_pos [of k] assms by (rule less_le_trans)
  then have nz: "x \<noteq> 0" by simp
  have "pow2 k < pow2 (ilog2 x + 1)" using ilog2_bounds [OF nz] assms by linarith
  then show ?thesis by simp
qed

lemma rne_floor_le: "\<lfloor>x\<rfloor> \<le> rne x"
  by (simp add: rne_def Let_def)

lemma rne_le_floor: "rne x \<le> \<lfloor>x\<rfloor> + 1"
  by (simp add: rne_def Let_def)

lemma rne_int [simp]: "rne (of_int n) = n"
  by (simp add: rne_def)

lemma rne_le: "x \<le> of_int n \<Longrightarrow> rne x \<le> n"
proof (cases "x = of_int n")
  case True
  then show ?thesis by simp
next
  case False
  assume "x \<le> of_int n"
  with False have "x < of_int n" by simp
  then have "\<lfloor>x\<rfloor> < n" by (simp add: floor_less_iff)
  then show ?thesis using rne_le_floor [of x] by linarith
qed

lemma rne_ge: "of_int n \<le> x \<Longrightarrow> n \<le> rne x"
proof -
  assume "of_int n \<le> x"
  then have "n \<le> \<lfloor>x\<rfloor>" by (simp add: le_floor_iff)
  then show ?thesis using rne_floor_le [of x] by linarith
qed

lemma rne_mono: "x \<le> y \<Longrightarrow> rne x \<le> rne y"
proof (cases "\<lfloor>x\<rfloor> = \<lfloor>y\<rfloor>")
  case True
  assume "x \<le> y"
  then show ?thesis using True by (auto simp: rne_def Let_def)
next
  case False
  assume "x \<le> y"
  then have "\<lfloor>x\<rfloor> \<le> \<lfloor>y\<rfloor>" by (rule floor_mono)
  with False have "\<lfloor>x\<rfloor> + 1 \<le> \<lfloor>y\<rfloor>" by simp
  then show ?thesis using rne_le_floor [of x] rne_floor_le [of y] by linarith
qed

lemma rne_gt_half:
  assumes "of_int n + 1 / 2 < x"
  shows "n + 1 \<le> rne x"
proof (cases "n + 1 \<le> \<lfloor>x\<rfloor>")
  case True
  then show ?thesis using rne_floor_le [of x] by linarith
next
  case False
  have "of_int n \<le> x" using assms by simp
  then have "n \<le> \<lfloor>x\<rfloor>" by (simp add: le_floor_iff)
  with False have f: "\<lfloor>x\<rfloor> = n" by simp
  then show ?thesis using assms by (simp add: rne_def Let_def)
qed

text \<open>The scaling of \<open>fround\<close>.\<close>

lemma fround_eq:
  "x \<noteq> 0 \<Longrightarrow> fround p x = of_int (rne (x * pow2 (int p - 1 - ilog2 x))) / pow2 (int p - 1 - ilog2 x)"
  by (simp add: fround_def Let_def)

lemma fround_0 [simp]: "fround p 0 = 0"
  by (simp add: fround_def)

lemma fround_pos:
  assumes "0 < x" "1 \<le> p"
  shows "0 < fround p x"
proof -
  have nz: "x \<noteq> 0" using assms by simp
  define s where "s = pow2 (int p - 1 - ilog2 x)"
  have "pow2 (ilog2 x) \<le> x"
    using ilog2_bounds [OF nz] assms(1) by simp
  then have "pow2 (ilog2 x) * s \<le> x * s"
    by (intro mult_right_mono) (simp_all add: s_def less_imp_le)
  moreover have "pow2 (ilog2 x) * s = pow2 (int p - 1)"
    by (simp add: s_def flip: pow2_add)
  moreover have "(of_int 1 :: rat) \<le> pow2 (int p - 1)"
    using assms(2) pow2_mono [of 0 "int p - 1"] by simp
  ultimately have "of_int 1 \<le> x * s" by simp
  then have "1 \<le> rne (x * s)" by (rule rne_ge)
  moreover have "0 < s" by (simp add: s_def)
  moreover have "fround p x = of_int (rne (x * s)) / s"
    by (simp add: fround_eq [OF nz] s_def)
  ultimately show ?thesis by (simp add: zero_less_divide_iff)
qed

lemma fround_neg:
  assumes "x < 0" "1 \<le> p"
  shows "fround p x < 0"
proof -
  have nz: "x \<noteq> 0" using assms by simp
  define s where "s = pow2 (int p - 1 - ilog2 x)"
  have "pow2 (ilog2 x) \<le> - x"
    using ilog2_bounds [OF nz] assms(1) by simp
  then have "pow2 (ilog2 x) * s \<le> (- x) * s"
    by (intro mult_right_mono) (simp_all add: s_def less_imp_le)
  moreover have "pow2 (ilog2 x) * s = pow2 (int p - 1)"
    by (simp add: s_def flip: pow2_add)
  moreover have "(1 :: rat) \<le> pow2 (int p - 1)"
    using assms(2) pow2_mono [of 0 "int p - 1"] by simp
  ultimately have "x * s \<le> of_int (- 1)" by simp
  then have "rne (x * s) \<le> - 1" by (rule rne_le)
  moreover have "0 < s" by (simp add: s_def)
  moreover have "fround p x = of_int (rne (x * s)) / s"
    by (simp add: fround_eq [OF nz] s_def)
  ultimately show ?thesis by (simp add: divide_less_0_iff)
qed


lemma fround_le_scaled:
  assumes "x \<noteq> 0" "x * pow2 (int p - 1 - ilog2 x) \<le> of_int N"
  shows "fround p x \<le> of_int N / pow2 (int p - 1 - ilog2 x)"
proof -
  have "rne (x * pow2 (int p - 1 - ilog2 x)) \<le> N" using assms(2) by (rule rne_le)
  then have "(of_int (rne (x * pow2 (int p - 1 - ilog2 x))) :: rat) \<le> of_int N" by simp
  then show ?thesis
    by (simp add: fround_eq [OF assms(1)] divide_right_mono less_imp_le)
qed

lemma fround_ge_scaled:
  assumes "x \<noteq> 0" "of_int N \<le> x * pow2 (int p - 1 - ilog2 x)"
  shows "of_int N / pow2 (int p - 1 - ilog2 x) \<le> fround p x"
proof -
  have "N \<le> rne (x * pow2 (int p - 1 - ilog2 x))" using assms(2) by (rule rne_ge)
  then have "(of_int N :: rat) \<le> of_int (rne (x * pow2 (int p - 1 - ilog2 x)))" by simp
  then show ?thesis
    by (simp add: fround_eq [OF assms(1)] divide_right_mono less_imp_le)
qed

lemma fround_le_int:
  assumes "\<bar>x\<bar> < pow2 (int p)" "x \<le> of_int N"
  shows "fround p x \<le> of_int N"
proof (cases "x = 0")
  case True
  then show ?thesis using assms(2) by simp
next
  case False
  define k where "k = int p - 1 - ilog2 x"
  have k: "0 \<le> k" using ilog2_less [OF False assms(1)] by (simp add: k_def)
  have s: "pow2 k = of_int (2 ^ nat k)" using k by (rule pow2_int)
  have "x * pow2 k \<le> of_int N * pow2 k"
    using assms(2) by (intro mult_right_mono) (simp_all add: less_imp_le)
  then have "x * pow2 k \<le> of_int (N * 2 ^ nat k)" by (simp add: s)
  then have "fround p x \<le> of_int (N * 2 ^ nat k) / pow2 k"
    unfolding k_def by (rule fround_le_scaled [OF False])
  then show ?thesis by (simp add: s)
qed

lemma fround_ge_int:
  assumes "\<bar>x\<bar> < pow2 (int p)" "of_int N \<le> x"
  shows "of_int N \<le> fround p x"
proof (cases "x = 0")
  case True
  then show ?thesis using assms(2) by simp
next
  case False
  define k where "k = int p - 1 - ilog2 x"
  have k: "0 \<le> k" using ilog2_less [OF False assms(1)] by (simp add: k_def)
  have s: "pow2 k = of_int (2 ^ nat k)" using k by (rule pow2_int)
  have "of_int N * pow2 k \<le> x * pow2 k"
    using assms(2) by (intro mult_right_mono) (simp_all add: less_imp_le)
  then have "of_int (N * 2 ^ nat k) \<le> x * pow2 k" by (simp add: s)
  then have "of_int (N * 2 ^ nat k) / pow2 k \<le> fround p x"
    unfolding k_def by (rule fround_ge_scaled [OF False])
  then show ?thesis by (simp add: s)
qed

lemma fround_int:
  assumes "\<bar>of_int n\<bar> < pow2 (int p)"
  shows "fround p (of_int n) = of_int n"
  using fround_le_int [OF assms, of n] fround_ge_int [OF assms, of n] by simp

lemma fround_lower:
  assumes "0 < x" "1 \<le> p"
  shows "pow2 (ilog2 x) \<le> fround p x"
proof -
  have nz: "x \<noteq> 0" using assms by simp
  define s where "s = pow2 (int p - 1 - ilog2 x)"
  have p1: "pow2 (int p - 1) = of_int (2 ^ nat (int p - 1))"
    using assms(2) by (intro pow2_int) simp
  have "pow2 (ilog2 x) \<le> x"
    using ilog2_bounds [OF nz] assms(1) by simp
  then have "pow2 (ilog2 x) * s \<le> x * s"
    by (intro mult_right_mono) (simp_all add: s_def less_imp_le)
  moreover have "pow2 (ilog2 x) * s = pow2 (int p - 1)"
    by (simp add: s_def flip: pow2_add)
  ultimately have "of_int (2 ^ nat (int p - 1)) \<le> x * s" by (simp add: p1)
  then have "of_int (2 ^ nat (int p - 1)) / s \<le> fround p x"
    unfolding s_def by (rule fround_ge_scaled [OF nz])
  moreover have "pow2 (int p - 1) / s = pow2 (ilog2 x)"
    using pow2_add [of "ilog2 x" "int p - 1 - ilog2 x"] pow2_pos [of "int p - 1 - ilog2 x"]
    by (simp add: s_def field_simps)
  ultimately show ?thesis by (simp add: p1)
qed

lemma fround_upper:
  assumes "0 < x"
  shows "fround p x \<le> pow2 (ilog2 x + 1)"
proof -
  have nz: "x \<noteq> 0" using assms by simp
  define s where "s = pow2 (int p - 1 - ilog2 x)"
  have p1: "pow2 (int p) = of_int (2 ^ nat (int p))"
    by (intro pow2_int) simp
  have "x \<le> pow2 (ilog2 x + 1)"
    using ilog2_bounds [OF nz] assms(1) by simp
  then have "x * s \<le> pow2 (ilog2 x + 1) * s"
    by (intro mult_right_mono) (simp_all add: s_def less_imp_le)
  moreover have "pow2 (ilog2 x + 1) * s = pow2 (int p)"
    by (simp add: s_def flip: pow2_add)
  ultimately have "x * s \<le> of_int (2 ^ nat (int p))" by (simp add: p1)
  then have "fround p x \<le> of_int (2 ^ nat (int p)) / s"
    unfolding s_def by (rule fround_le_scaled [OF nz])
  moreover have "pow2 (int p) / s = pow2 (ilog2 x + 1)"
    using pow2_add [of "ilog2 x + 1" "int p - 1 - ilog2 x"] pow2_pos [of "int p - 1 - ilog2 x"]
    by (simp add: s_def field_simps)
  ultimately show ?thesis by (simp add: p1)
qed


lemma rne_minus: "rne (- x) = - rne x"
proof (cases "x = of_int \<lfloor>x\<rfloor>")
  case True
  then obtain n where "x = of_int n" ..
  then have "rne (- x) = rne (of_int (- n))" by simp
  also have "\<dots> = - n" by (rule rne_int)
  finally show ?thesis using \<open>x = of_int n\<close> by simp
next
  case False
  define f where "f = \<lfloor>x\<rfloor>"
  have fl: "\<lfloor>- x\<rfloor> = - f - 1"
    using False by (simp add: floor_minus ceiling_altdef f_def)
  have ne: "x - of_int f \<noteq> 0" using False by (simp add: f_def)
  have par: "even (- f - 1) \<longleftrightarrow> odd f" by simp
  show ?thesis
    unfolding rne_def Let_def fl f_def [symmetric]
    using ne par by (auto simp: algebra_simps)
qed

lemma ilog2_minus [simp]: "ilog2 (- x) = ilog2 x"
  by (simp add: ilog2_def)

lemma fround_minus: "fround p (- x) = - fround p x"
  by (simp add: fround_def Let_def rne_minus)

lemma fround_mono_pos:
  assumes "0 < x" "x \<le> y" "1 \<le> p"
  shows "fround p x \<le> fround p y"
proof -
  have y: "0 < y" using assms by simp
  have nzx: "x \<noteq> 0" and nzy: "y \<noteq> 0" using assms by simp_all
  have "pow2 (ilog2 x) \<le> \<bar>y\<bar>"
    using ilog2_bounds [OF nzx] assms by simp
  then have le: "ilog2 x \<le> ilog2 y" by (rule ilog2_ge)
  show ?thesis
  proof (cases "ilog2 x = ilog2 y")
    case True
    define s where "s = pow2 (int p - 1 - ilog2 y)"
    have "x * s \<le> y * s"
      using assms(2) by (intro mult_right_mono) (simp_all add: s_def less_imp_le)
    then have "rne (x * s) \<le> rne (y * s)" by (rule rne_mono)
    then have "(of_int (rne (x * s)) :: rat) / s \<le> of_int (rne (y * s)) / s"
      by (intro divide_right_mono) (simp_all add: s_def less_imp_le)
    then show ?thesis
      by (simp add: fround_eq [OF nzx] fround_eq [OF nzy] True s_def)
  next
    case False
    with le have "ilog2 x + 1 \<le> ilog2 y" by simp
    then have "pow2 (ilog2 x + 1) \<le> pow2 (ilog2 y)" by simp
    then show ?thesis
      using fround_upper [OF assms(1), of p] fround_lower [OF y assms(3)] by linarith
  qed
qed

lemma fround_mono:
  assumes "x \<le> y" "1 \<le> p"
  shows "fround p x \<le> fround p y"
proof -
  consider "0 < x" | "y < 0" | "x \<le> 0" "0 \<le> y" by linarith
  then show ?thesis
  proof cases
    case 1
    then show ?thesis using assms by (rule fround_mono_pos)
  next
    case 2
    then have "0 < - y" "- y \<le> - x" using assms by simp_all
    then have "fround p (- y) \<le> fround p (- x)" using assms(2) by (rule fround_mono_pos)
    then show ?thesis by (simp add: fround_minus)
  next
    case 3
    have "fround p x \<le> 0"
      using fround_neg [of x p] assms(2) 3(1) by (cases "x = 0") (simp_all add: less_imp_le)
    moreover have "0 \<le> fround p y"
      using fround_pos [of y p] assms(2) 3(2) by (cases "y = 0") (simp_all add: less_imp_le)
    ultimately show ?thesis by simp
  qed
qed

lemma ceil_div_bounds:
  fixes x d :: int
  assumes "0 < d"
  defines "q \<equiv> (x + d - 1) div d"
  shows "x \<le> q * d" "(q - 1) * d < x"
proof -
  define r where "r = (x + d - 1) mod d"
  have r: "0 \<le> r" "r < d" using assms(1) by (simp_all add: r_def)
  have "q * d + r = x + d - 1" by (simp add: q_def r_def)
  then show "x \<le> q * d" "(q - 1) * d < x" using r by (simp_all add: algebra_simps)
qed

lemma fl32_ceil_div:
  fixes x d :: int
  assumes x0: "0 \<le> x" and d0: "0 < d" and xb: "x < 2 ^ 24"
  shows "\<lceil>fl32 (of_int x / of_int d)\<rceil> = (x + d - 1) div d"
proof (cases "x = 0")
  case True
  then show ?thesis using d0 by (simp add: fl32_def)
next
  case False
  with x0 have xp: "0 < x" by simp
  define y :: rat where "y = of_int x / of_int d"
  define c where "c = (x + d - 1) div d"
  have dr: "(0::rat) < of_int d" using d0 by simp
  have yp: "0 < y" using xp d0 by (simp add: y_def)
  have ynz: "y \<noteq> 0" using yp by simp
  have cb: "x \<le> c * d" "(c - 1) * d < x"
    using ceil_div_bounds [OF d0, of x] by (simp_all add: c_def)
  have yc: "y \<le> of_int c"
  proof -
    have "(of_int x :: rat) \<le> of_int (c * d)" using cb(1) by (simp only: of_int_le_iff)
    then show ?thesis using dr by (simp add: y_def pos_divide_le_eq)
  qed
  have ylow: "of_int (c - 1) + 1 / of_int d \<le> y"
  proof -
    have "(c - 1) * d + 1 \<le> x" using cb(2) by simp
    then have "(of_int ((c - 1) * d + 1) :: rat) \<le> of_int x" by (simp only: of_int_le_iff)
    then have "(of_int ((c - 1) * d + 1) :: rat) / of_int d \<le> of_int x / of_int d"
      using dr by (intro divide_right_mono) simp_all
    moreover have "(of_int ((c - 1) * d + 1) :: rat) / of_int d = of_int (c - 1) + 1 / of_int d"
      using dr by (simp add: field_simps)
    ultimately show ?thesis by (simp add: y_def)
  qed
  have yx: "y \<le> of_int x"
  proof -
    have "(of_int x :: rat) * 1 \<le> of_int x * of_int d"
      using xp d0 by (intro mult_left_mono) simp_all
    then show ?thesis using dr by (simp add: y_def pos_divide_le_eq)
  qed
  have xr: "(of_int x :: rat) < of_int (2 ^ 24)" using xb by (simp only: of_int_less_iff)
  have yb: "\<bar>y\<bar> < pow2 (int 24)"
    using xr yx yp by (simp add: pow2_def)
  have up: "fround 24 y \<le> of_int c" using yb yc by (rule fround_le_int)
  have lo: "of_int (c - 1) < fround 24 y"
  proof (cases "c \<le> 1")
    case True
    have "0 < fround 24 y" using yp by (rule fround_pos) simp
    moreover have "(of_int (c - 1) :: rat) \<le> 0" using True by simp
    ultimately show ?thesis by linarith
  next
    case False
    then have c2: "2 \<le> c" by simp
    have "(1::rat) \<le> of_int (c - 1)" using c2 by simp
    moreover have "(0::rat) < 1 / of_int d" using dr by simp
    ultimately have y1: "1 \<le> y" using ylow by linarith
    define e where "e = ilog2 y"
    have e0: "0 \<le> e" unfolding e_def using y1 yp by (intro ilog2_ge) simp
    have e24: "e < 24" unfolding e_def using ilog2_less [OF ynz yb] by simp
    define k where "k = 23 - e"
    have k0: "0 \<le> k" using e24 by (simp add: k_def)
    define s :: rat where "s = pow2 k"
    have s: "s = of_int (2 ^ nat k)" unfolding s_def using k0 by (rule pow2_int)
    have sp: "0 < s" by (simp add: s_def)
    have dlt: "of_int d < 2 * s"
    proof -
      have "pow2 e \<le> y" using ilog2_bounds [OF ynz] yp by (simp add: e_def)
      then have "pow2 e * of_int d \<le> of_int x" using dr by (simp add: y_def pos_le_divide_eq)
      also have "(of_int x :: rat) < pow2 24"
        using xr by (simp add: pow2_def)
      also have "pow2 24 = pow2 e * pow2 (24 - e)" by (simp flip: pow2_add)
      finally have "of_int d < pow2 (24 - e)" by simp
      also have "pow2 (24 - e) = pow2 1 * pow2 k" by (simp add: k_def flip: pow2_add)
      finally show ?thesis by (simp add: s_def pow2_def)
    qed
    have "of_int ((c - 1) * 2 ^ nat k) + 1 / 2 < y * s"
    proof -
      have "1 / 2 < s / of_int d" using dlt dr by (simp add: field_simps)
      then have "of_int (c - 1) * s + 1 / 2 < (of_int (c - 1) + 1 / of_int d) * s"
        by (simp add: algebra_simps)
      also have "\<dots> \<le> y * s" using ylow sp by (intro mult_right_mono) simp_all
      finally show ?thesis by (simp add: s)
    qed
    then have "(c - 1) * 2 ^ nat k + 1 \<le> rne (y * s)" by (rule rne_gt_half)
    then have "(of_int ((c - 1) * 2 ^ nat k + 1) :: rat) \<le> of_int (rne (y * s))"
      by (simp only: of_int_le_iff)
    then have "of_int ((c - 1) * 2 ^ nat k + 1) / s \<le> of_int (rne (y * s)) / s"
      using sp by (intro divide_right_mono) simp_all
    moreover have "fround 24 y = of_int (rne (y * s)) / s"
      by (simp add: fround_eq [OF ynz] s_def k_def e_def)
    moreover have "of_int (c - 1) < (of_int ((c - 1) * 2 ^ nat k + 1) :: rat) / s"
      using sp by (simp add: pos_less_divide_eq s)
    ultimately show ?thesis by linarith
  qed
  have "\<lceil>fround 24 y\<rceil> = c"
    using lo up by (intro ceiling_unique) simp_all
  then show ?thesis by (simp add: fl32_def y_def c_def)
qed

lemma ctrunc_int [simp]: "ctrunc (of_int n) = n"
  by (simp add: ctrunc_def)

lemma to_uint32_int: "0 \<le> n \<Longrightarrow> n < 2 ^ 32 \<Longrightarrow> to_uint32 (of_int n) = Inr (word_of_int n)"
  by (simp add: to_uint32_def)

lemma fl32_int: "\<bar>n\<bar> < 2 ^ 24 \<Longrightarrow> fl32 (of_int n) = of_int n"
proof -
  assume "\<bar>n\<bar> < 2 ^ 24"
  then have "(of_int \<bar>n\<bar> :: rat) < of_int (2 ^ 24)" by (simp only: of_int_less_iff)
  then have "\<bar>of_int n :: rat\<bar> < pow2 (int 24)" by (simp add: pow2_def)
  then show ?thesis unfolding fl32_def by (rule fround_int)
qed

lemma len32: "LENGTH(32) = 32"
  by simp

lemma of_u32_exact: "uint w < 2 ^ 24 \<Longrightarrow> of_u32 w = of_int (uint w)"
  by (simp add: of_u32_def fl32_int)

lemma and_then_Inr [simp]: "and_then (Inr v) f = f v"
  by (simp add: and_then_def)

lemma and_then_Inl [simp]: "and_then (Inl e) f = Inl e"
  by (simp add: and_then_def)

lemma and_then_eq_Inr:
  "and_then r f = Inr y \<longleftrightarrow> (\<exists>v. r = Inr v \<and> f v = Inr y)"
  by (cases r) simp_all

lemma tone_period_value:
  assumes "0 < uint rate" "uint rate < 2 ^ 24" "freq \<noteq> 0"
  shows "tone_period rate freq = Inr (word_of_int ((uint rate + uint freq - 1) div uint freq))"
    and "0 < (uint rate + uint freq - 1) div uint freq"
    and "(uint rate + uint freq - 1) div uint freq \<le> uint rate"
proof -
  define x where "x = uint rate"
  define d where "d = uint freq"
  have d0: "0 < d" using assms(3) by (simp add: d_def word_greater_zero_iff [symmetric] word_less_def)
  have x0: "0 < x" and xb: "x < 2 ^ 24" using assms by (simp_all add: x_def)
  define c where "c = (x + d - 1) div d"
  have cb: "x \<le> c * d" "(c - 1) * d < x"
    using ceil_div_bounds [OF d0, of x] by (simp_all add: c_def)
  have c0: "0 < c"
  proof (rule ccontr)
    assume "\<not> 0 < c"
    then have "c * d \<le> 0" using d0 by (simp add: mult_le_0_iff)
    then show False using cb(1) x0 by simp
  qed
  have cx: "c \<le> x"
  proof -
    have "(c - 1) * 1 \<le> (c - 1) * d" using c0 d0 by (intro mult_left_mono) simp_all
    then show ?thesis using cb(2) by simp
  qed
  have ceil: "\<lceil>fl32 (of_int x / of_int d)\<rceil> = c"
    unfolding c_def using x0 d0 xb by (intro fl32_ceil_div) simp_all
  have "tone_period rate freq = to_uint32 (of_int c)"
    using d0 xb by (simp add: tone_period_def fdiv32_def of_u16_def of_u32_exact ceil
        flip: x_def d_def)
  also have "\<dots> = Inr (word_of_int c)"
    using c0 cx xb by (intro to_uint32_int) simp_all
  finally show "tone_period rate freq = Inr (word_of_int ((uint rate + uint freq - 1) div uint freq))"
    by (simp add: c_def x_def d_def)
  show "0 < (uint rate + uint freq - 1) div uint freq"
    using c0 by (simp add: c_def x_def d_def)
  show "(uint rate + uint freq - 1) div uint freq \<le> uint rate"
    using cx by (simp add: c_def x_def d_def)
qed

lemma whole_periods_value:
  assumes "uint n < 2 ^ 23" "0 < uint period" "uint period < 2 ^ 23"
  shows "whole_periods n period
    = Inr (word_of_int ((uint n + uint period - 1) div uint period * uint period))"
    and "uint (word_of_int ((uint n + uint period - 1) div uint period * uint period) :: 32 word)
      = (uint n + uint period - 1) div uint period * uint period"
proof -
  define x where "x = uint n"
  define d where "d = uint period"
  have x0: "0 \<le> x" by (simp add: x_def)
  have xb: "x < 2 ^ 23" and d0: "0 < d" and db: "d < 2 ^ 23" using assms by (simp_all add: x_def d_def)
  define c where "c = (x + d - 1) div d"
  have cb: "x \<le> c * d" "(c - 1) * d < x"
    using ceil_div_bounds [OF d0, of x] by (simp_all add: c_def)
  have c0: "0 \<le> c"
  proof (rule ccontr)
    assume "\<not> 0 \<le> c"
    then have "c * d < 0" using d0 by (simp add: mult_less_0_iff)
    then show False using cb(1) x0 by simp
  qed
  have cd0: "0 \<le> c * d" using c0 d0 by simp
  have cdb: "c * d < 2 ^ 24" using cb(2) xb db by (simp add: algebra_simps)
  have ceil: "\<lceil>fl32 (of_int x / of_int d)\<rceil> = c"
    unfolding c_def using x0 d0 xb by (intro fl32_ceil_div) simp_all
  have ex: "fl32 (of_int c * of_int d) = of_int (c * d)"
    using fl32_int [of "c * d"] cd0 cdb by simp
  have "whole_periods n period = to_uint32 (of_int (c * d))"
    using d0 xb db by (simp add: whole_periods_def fdiv32_def of_u32_exact ceil ex
        flip: x_def d_def)
  also have "\<dots> = Inr (word_of_int (c * d))"
    using cd0 cdb by (intro to_uint32_int) simp_all
  finally show "whole_periods n period
    = Inr (word_of_int ((uint n + uint period - 1) div uint period * uint period))"
    by (simp add: c_def x_def d_def)
  have "c * d mod 2 ^ 32 = c * d"
    using cd0 cdb by (intro mod_pos_pos_trivial) simp_all
  then have "uint (word_of_int (c * d) :: 32 word) = c * d"
    by (simp only: uint_word_of_int len32)
  then show "uint (word_of_int ((uint n + uint period - 1) div uint period * uint period) :: 32 word)
      = (uint n + uint period - 1) div uint period * uint period"
    by (simp add: c_def x_def d_def)
qed

lemma collect_returns:
  assumes "\<And>r. r \<in> set rs \<Longrightarrow> \<exists>v. r = Inr v"
  shows "\<exists>vs. collect rs = Inr vs"
  using assms
proof (induction rs)
  case Nil
  then show ?case by simp
next
  case (Cons r rs)
  obtain v where v: "r = Inr v" using Cons.prems [of r] by auto
  obtain vs where vs: "collect rs = Inr vs" using Cons.IH Cons.prems by auto
  show ?case by (simp add: v vs)
qed

lemma collect_length: "collect rs = Inr vs \<Longrightarrow> length vs = length rs"
proof (induction rs arbitrary: vs)
  case Nil
  then show ?case by simp
next
  case (Cons r rs)
  then show ?case by (auto simp: and_then_eq_Inr)
qed

lemma collect_nth: "collect rs = Inr vs \<Longrightarrow> i < length rs \<Longrightarrow> rs ! i = Inr (vs ! i)"
proof (induction rs arbitrary: vs i)
  case Nil
  then show ?case by simp
next
  case (Cons r rs)
  then show ?case by (cases i) (auto simp: and_then_eq_Inr)
qed

lemma fl32_pos: "0 < x \<Longrightarrow> 0 < fl32 x"
  unfolding fl32_def by (rule fround_pos) simp_all

lemma fl32_nonneg: "0 \<le> x \<Longrightarrow> 0 \<le> fl32 x"
  using fround_mono [of 0 x 24] by (simp add: fl32_def)

lemma fl32_le_int:
  assumes "0 \<le> x" "x \<le> of_int N" "N < 2 ^ 24"
  shows "fl32 x \<le> of_int N"
proof -
  have "(of_int N :: rat) < of_int (2 ^ 24)" using assms(3) by (simp only: of_int_less_iff)
  then have "\<bar>x\<bar> < pow2 (int 24)" using assms(1,2) by (simp add: pow2_def)
  then show ?thesis unfolding fl32_def using assms(2) by (rule fround_le_int)
qed

lemma ctrunc_nonneg: "0 \<le> x \<Longrightarrow> ctrunc x = \<lfloor>x\<rfloor>"
  by (simp add: ctrunc_def)

lemma to_uint32_nonneg:
  assumes "0 \<le> x" "x \<le> of_int N" "N < 2 ^ 32"
  shows "to_uint32 x = Inr (word_of_int \<lfloor>x\<rfloor>)" and "uint (word_of_int \<lfloor>x\<rfloor> :: 32 word) = \<lfloor>x\<rfloor>"
    and "\<lfloor>x\<rfloor> \<le> N"
proof -
  have f0: "0 \<le> \<lfloor>x\<rfloor>" using assms(1) by simp
  show fN: "\<lfloor>x\<rfloor> \<le> N" using assms(2) by (simp add: floor_le_iff)
  have fb: "\<lfloor>x\<rfloor> < 2 ^ 32" using fN assms(3) by linarith
  show "to_uint32 x = Inr (word_of_int \<lfloor>x\<rfloor>)"
    using f0 fb assms(1) by (simp add: to_uint32_def ctrunc_def)
  have "\<lfloor>x\<rfloor> mod 2 ^ 32 = \<lfloor>x\<rfloor>" using f0 fb by (intro mod_pos_pos_trivial)
  then show "uint (word_of_int \<lfloor>x\<rfloor> :: 32 word) = \<lfloor>x\<rfloor>"
    by (simp only: uint_word_of_int len32)
qed

text \<open>The single-precision value of the dit length, before it is stored.\<close>

lemma dit_samples_value:
  assumes "wpm \<noteq> 0" "uint rate < 2 ^ 18"
  defines "t \<equiv> fl32 (fl32 (60 / of_int (50 * uint wpm)) * of_int (uint rate))"
  shows "dit_samples wpm rate = Inr (word_of_int \<lfloor>t\<rfloor>)"
    and "uint (word_of_int \<lfloor>t\<rfloor> :: 32 word) = \<lfloor>t\<rfloor>"
    and "\<lfloor>t\<rfloor> \<le> 2 * uint rate" and "0 \<le> t"
proof -
  define w where "w = uint wpm"
  define r where "r = uint rate"
  have w0: "0 < w" using assms(1) by (simp add: w_def word_greater_zero_iff [symmetric] word_less_def)
  have wb: "w < 2 ^ 16" using uint_bounded [of wpm] by (simp add: w_def)
  have r0: "0 \<le> r" and rb: "r < 2 ^ 18" using assms(2) by (simp_all add: r_def)
  have e50: "fl32 (50 * of_u16 wpm) = of_int (50 * w)"
    using fl32_int [of "50 * w"] w0 wb by (simp add: of_u16_def w_def)
  have nz: "(of_int (50 * w) :: rat) \<noteq> 0" using w0 by simp
  define u :: rat where "u = fl32 (60 / of_int (50 * w))"
  have q: "(0::rat) < 60 / of_int (50 * w)" using w0 by simp
  have q2: "(60::rat) / of_int (50 * w) \<le> of_int 2"
  proof -
    have "(1::rat) \<le> of_int w" using w0 by simp
    then have "(60::rat) \<le> 2 * (50 * of_int w)" by simp
    then show ?thesis using w0 by (simp add: pos_divide_le_eq)
  qed
  have u0: "0 < u" unfolding u_def using q by (rule fl32_pos)
  have u2: "u \<le> of_int 2" unfolding u_def using q q2 by (intro fl32_le_int) simp_all
  have rr: "of_u32 rate = of_int r"
    using rb by (simp add: of_u32_exact r_def)
  have p0: "0 \<le> u * of_int r" using u0 r0 by simp
  have p2: "u * of_int r \<le> of_int (2 * r)"
    using u2 r0 mult_right_mono [of u 2 "of_int r"] by simp
  have t: "t = fl32 (u * of_int r)" by (simp add: t_def u_def w_def r_def)
  have t0: "0 \<le> t" unfolding t using p0 by (rule fl32_nonneg)
  have t2: "t \<le> of_int (2 * r)" unfolding t using p0 p2 rb by (intro fl32_le_int) simp_all
  have d: "dit_samples wpm rate = to_uint32 t"
    using nz by (simp add: dit_samples_def fdiv32_def e50 rr t u_def)
  have b: "2 * r < 2 ^ 32" using rb by simp
  show "dit_samples wpm rate = Inr (word_of_int \<lfloor>t\<rfloor>)"
    unfolding d using t0 t2 b by (rule to_uint32_nonneg)
  show "uint (word_of_int \<lfloor>t\<rfloor> :: 32 word) = \<lfloor>t\<rfloor>"
    using t0 t2 b by (rule to_uint32_nonneg)
  show "\<lfloor>t\<rfloor> \<le> 2 * uint rate"
    using to_uint32_nonneg(3) [OF t0 t2 b] by (simp add: r_def)
  show "0 \<le> t" by (rule t0)
qed

lemma risetime_samples_returns:
  assumes "0 < rt" "rt \<le> 50" "rate \<noteq> 0" "uint rate < 2 ^ 18"
  shows "\<exists>rs. risetime_samples rt rate = Inr rs \<and> 2 \<le> uint rs"
proof -
  define r where "r = uint rate"
  have r0: "0 < r" using assms(3) by (simp add: r_def word_greater_zero_iff [symmetric] word_less_def)
  have rb: "r < 2 ^ 18" using assms(4) by (simp add: r_def)
  have rr: "of_u32 rate = of_int r"
    using rb by (simp add: of_u32_exact r_def)
  define a where "a = fl32 (rt * of_int r)"
  have x0: "0 < rt * of_int r" using assms(1) r0 by simp
  have x1: "rt * of_int r \<le> of_int (50 * r)"
    using assms(2) r0 mult_right_mono [of rt 50 "of_int r"] by simp
  have a0: "0 < a" unfolding a_def using x0 by (rule fl32_pos)
  have a1: "a \<le> of_int (50 * r)"
    unfolding a_def using x0 x1 rb by (intro fl32_le_int) simp_all
  define q where "q = fl32 (a / 1000)"
  have q0: "0 < q" unfolding q_def using a0 by (intro fl32_pos) simp
  have "a / 1000 \<le> a" using a0 by simp
  then have "a / 1000 \<le> of_int (50 * r)" using a1 by linarith
  then have q1: "q \<le> of_int (50 * r)"
    unfolding q_def using a0 rb by (intro fl32_le_int) simp_all
  define c where "c = \<lceil>q\<rceil>"
  have c0: "1 \<le> c" using q0 by (simp add: c_def)
  have c1: "c \<le> 50 * r" using q1 by (simp add: c_def ceiling_le_iff)
  have ex: "fl32 (of_int c + 1) = of_int (c + 1)"
    using fl32_int [of "c + 1"] c0 c1 rb by simp
  have "risetime_samples rt rate = to_uint32 (of_int (c + 1))"
    by (simp add: risetime_samples_def fdiv32_def rr ex flip: a_def q_def c_def)
  also have "\<dots> = Inr (word_of_int (c + 1))"
    using c0 c1 rb by (intro to_uint32_int) simp_all
  finally have 1: "risetime_samples rt rate = Inr (word_of_int (c + 1))" .
  have "(c + 1) mod 2 ^ 32 = c + 1" using c0 c1 rb by (intro mod_pos_pos_trivial) simp_all
  then have "uint (word_of_int (c + 1) :: 32 word) = c + 1"
    by (simp only: uint_word_of_int len32)
  then have 2: "2 \<le> uint (word_of_int (c + 1) :: 32 word)" using c0 by simp
  show ?thesis using 1 2 by blast
qed

lemma to_int16_bounded:
  assumes "- 32767 \<le> x" "x \<le> 32767"
  shows "\<exists>v. to_int16 x = Inr v"
proof -
  have "- 32767 \<le> ctrunc x \<and> ctrunc x \<le> 32767"
    using assms by (auto simp: ctrunc_def le_floor_iff floor_le_iff ceiling_le_iff le_ceiling_iff)
  then show ?thesis by (simp add: to_int16_def)
qed

lemma fl64_bounded:
  assumes "- of_int N \<le> x" "x \<le> of_int N" "0 \<le> N" "N < 2 ^ 53"
  shows "- of_int N \<le> fl64 x \<and> fl64 x \<le> of_int N"
proof -
  have "(of_int N :: rat) < of_int (2 ^ 53)" using assms(4) by (simp only: of_int_less_iff)
  then have b: "\<bar>x\<bar> < pow2 (int 53)" using assms(1,2) by (simp add: pow2_def abs_less_iff)
  have "fround 53 x \<le> of_int N" using b assms(2) by (rule fround_le_int)
  moreover have "of_int (- N) \<le> fround 53 x" using b assms(1) by (intro fround_ge_int) simp_all
  ultimately show ?thesis by (simp add: fl64_def)
qed

lemma tone_sample_returns:
  assumes "\<forall>a. \<bar>c_sin P a\<bar> \<le> 1" "uint vol \<le> 32767" "rate \<noteq> 0" "uint rate < 2 ^ 18"
  shows "\<exists>v. tone_sample P vol freq rate i = Inr v"
proof -
  have r0: "0 < uint rate" using assms(3) by (simp add: word_greater_zero_iff [symmetric] word_less_def)
  have rr: "of_u32 rate = of_int (uint rate)" using assms(4) by (simp add: of_u32_exact)
  have nz: "of_u32 rate \<noteq> 0" using r0 by (simp add: rr)
  define a where "a = fl64 (fl64 (fl64 (fl64 (of_nat i * 2) * M_PI) * of_u16 freq) / of_u32 rate)"
  define s where "s = c_sin P a"
  define v :: rat where "v = of_int (uint vol)"
  have s1: "\<bar>s\<bar> \<le> 1" using assms(1) by (simp add: s_def)
  have v0: "0 \<le> v" and v1: "v \<le> 32767" using assms(2) by (simp_all add: v_def)
  have "\<bar>v * s\<bar> \<le> v * 1" unfolding abs_mult using v0 s1 by (intro mult_mono) simp_all
  then have "\<bar>v * s\<bar> \<le> of_int 32767" using v1 by simp
  then have "- of_int 32767 \<le> v * s" "v * s \<le> of_int 32767" by (simp_all add: abs_le_iff)
  then have "- of_int 32767 \<le> fl64 (v * s) \<and> fl64 (v * s) \<le> of_int 32767"
    by (intro fl64_bounded) simp_all
  then obtain w where "to_int16 (fl64 (v * s)) = Inr w"
    using to_int16_bounded [of "fl64 (v * s)"] by auto
  then show ?thesis
    using nz by (simp add: tone_sample_def fdiv64_def of_u16_def [of vol] flip: a_def s_def v_def)
qed

lemma keyshape_sample_returns:
  assumes "2 \<le> uint rs"
  shows "\<exists>v. keyshape_sample P rs i = Inr v"
proof -
  have "uint (rs - 1) = uint rs - 1"
    using assms uint_sub_lem [of 1 rs] by simp
  then have "(of_int (uint (rs - 1)) :: rat) \<noteq> 0" using assms by simp
  then show ?thesis by (simp add: keyshape_sample_def fdiv64_def)
qed

lemma limit_frequency_nz:
  assumes "audio_minfreq P \<noteq> 0"
  shows "limit_frequency P f \<noteq> 0"
  using assms by (auto simp: limit_frequency_def Let_def word_less_def word_le_def not_less
      uint_0_iff [symmetric] simp del: uint_0_iff)

lemma init_buffers_Inr:
  assumes "init_buffers P g = Inr g'"
  shows "\<exists>period rs tone shape d0 d1.
      tone_period (cw_sample_rate g) (limit_frequency P (cw_frequency g)) = Inr period
    \<and> risetime_samples (cw_risetime g) (cw_sample_rate g) = Inr rs
    \<and> collect (map (tone_sample P (cw_volume g) (limit_frequency P (cw_frequency g))
         (cw_sample_rate g)) [0 ..< unat period]) = Inr tone
    \<and> collect (map (keyshape_sample P rs) [0 ..< unat rs]) = Inr shape
    \<and> dit_samples (cw_wpm g) (cw_sample_rate g) = Inr d0
    \<and> whole_periods d0 period = Inr d1
    \<and> g' = g\<lparr>cw_frequency := limit_frequency P (cw_frequency g),
              signal_buffer_period := period, cw_risetime_samples := rs,
              signal_buffer := tone, cw_keyshape := shape,
              signal_dit_length_index := d1, inchar_index := 0\<rparr>"
  using assms unfolding init_buffers_def Let_def and_then_eq_Inr by blast

lemma init_buffers_returns:
  assumes "sane_config P g"
  shows "\<exists>g'. init_buffers P g = Inr g'"
proof -
  define f where "f = limit_frequency P (cw_frequency g)"
  define rate where "rate = cw_sample_rate g"
  have s: "audio_minfreq P \<noteq> 0" "rate \<noteq> 0" "uint rate < 2 ^ 18" "cw_wpm g \<noteq> 0"
    "uint (cw_volume g) \<le> 32767" "0 < cw_risetime g" "cw_risetime g \<le> 50"
    "\<forall>a. \<bar>c_sin P a\<bar> \<le> 1"
    using assms by (simp_all add: sane_config_def rate_def)
  have f: "f \<noteq> 0" unfolding f_def using s(1) by (rule limit_frequency_nz)
  have r0: "0 < uint rate" using s(2) by (simp add: word_greater_zero_iff [symmetric] word_less_def)
  have r24: "uint rate < 2 ^ 24" using s(3) by simp
  define c where "c = (uint rate + uint f - 1) div uint f"
  define period :: "32 word" where "period = word_of_int c"
  have c: "0 < c" "c \<le> uint rate" and tp: "tone_period rate f = Inr period"
    using tone_period_value [OF r0 r24 f] by (simp_all add: c_def period_def)
  have "c mod 2 ^ 32 = c" using c s(3) by (intro mod_pos_pos_trivial) simp_all
  then have up: "uint period = c" unfolding period_def by (simp only: uint_word_of_int len32)
  obtain rs where rs: "risetime_samples (cw_risetime g) rate = Inr rs" "2 \<le> uint rs"
    using risetime_samples_returns [OF s(6,7,2,3)] by blast
  obtain tone where tone: "collect (map (tone_sample P (cw_volume g) f rate) [0 ..< unat period]) = Inr tone"
    using collect_returns [of "map (tone_sample P (cw_volume g) f rate) [0 ..< unat period]"]
      tone_sample_returns [OF s(8,5,2,3)] by auto
  obtain shape where shape: "collect (map (keyshape_sample P rs) [0 ..< unat rs]) = Inr shape"
    using collect_returns [of "map (keyshape_sample P rs) [0 ..< unat rs]"]
      keyshape_sample_returns [OF rs(2)] by auto
  define t where "t = fl32 (fl32 (60 / of_int (50 * uint (cw_wpm g))) * of_int (uint rate))"
  define d0 :: "32 word" where "d0 = word_of_int \<lfloor>t\<rfloor>"
  have d0: "dit_samples (cw_wpm g) rate = Inr d0" "uint d0 = \<lfloor>t\<rfloor>" "\<lfloor>t\<rfloor> \<le> 2 * uint rate"
    using dit_samples_value [OF s(4,3)] by (simp_all add: d0_def t_def)
  have s3: "uint rate < 262144" using s(3) by simp
  have "uint d0 < 8388608" using d0(2,3) s3 by linarith
  then have "uint d0 < 2 ^ 23" by simp
  moreover have "0 < uint period" "uint period < 2 ^ 23" using up c s(3) by simp_all
  ultimately obtain d1 where d1: "whole_periods d0 period = Inr d1"
    using whole_periods_value(1) [of d0 period] by blast
  show ?thesis
    by (simp add: init_buffers_def Let_def tp rs(1) tone shape d0(1) d1 flip: f_def rate_def)
qed

text \<open>The dit length that \<^verbatim>\<open>init_buffers\<close> leaves behind.\<close>

lemma init_buffers_dit_length:
  assumes "sane_config P g" "init_buffers P g = Inr g'"
  defines "t \<equiv> fl32 (fl32 (60 / of_int (50 * uint (cw_wpm g))) * of_int (uint (cw_sample_rate g)))"
  defines "f \<equiv> limit_frequency P (cw_frequency g)"
  shows "uint (signal_buffer_period g') = (uint (cw_sample_rate g) + uint f - 1) div uint f"
    and "uint (signal_dit_length_index g')
       = (\<lfloor>t\<rfloor> + uint (signal_buffer_period g') - 1) div uint (signal_buffer_period g')
           * uint (signal_buffer_period g')"
    and "0 < uint (signal_buffer_period g')"
proof -
  define rate where "rate = cw_sample_rate g"
  have s: "audio_minfreq P \<noteq> 0" "rate \<noteq> 0" "uint rate < 2 ^ 18" "cw_wpm g \<noteq> 0"
    using assms(1) by (simp_all add: sane_config_def rate_def)
  have f: "f \<noteq> 0" unfolding f_def using s(1) by (rule limit_frequency_nz)
  have r0: "0 < uint rate" using s(2) by (simp add: word_greater_zero_iff [symmetric] word_less_def)
  have r24: "uint rate < 2 ^ 24" using s(3) by simp
  obtain period rs tone shape d0 d1 where
    tp: "tone_period rate f = Inr period" and
    ds: "dit_samples (cw_wpm g) rate = Inr d0" and
    wp: "whole_periods d0 period = Inr d1" and
    g': "g' = g\<lparr>cw_frequency := f, signal_buffer_period := period, cw_risetime_samples := rs,
              signal_buffer := tone, cw_keyshape := shape,
              signal_dit_length_index := d1, inchar_index := 0\<rparr>"
    using init_buffers_Inr [OF assms(2)] unfolding f_def rate_def by blast
  define c where "c = (uint rate + uint f - 1) div uint f"
  have c: "0 < c" "c \<le> uint rate" and p: "period = word_of_int c"
    using tone_period_value [OF r0 r24 f] tp by (simp_all add: c_def)
  have "c mod 2 ^ 32 = c" using c s(3) by (intro mod_pos_pos_trivial) simp_all
  then have up: "uint period = c" unfolding p by (simp only: uint_word_of_int len32)
  have d0: "d0 = word_of_int \<lfloor>t\<rfloor>" "uint (word_of_int \<lfloor>t\<rfloor> :: 32 word) = \<lfloor>t\<rfloor>" "\<lfloor>t\<rfloor> \<le> 2 * uint rate"
    using dit_samples_value [OF s(4,3)] ds by (simp_all add: t_def rate_def)
  have ud: "uint d0 = \<lfloor>t\<rfloor>" using d0(1,2) by simp
  have s3: "uint rate < 262144" using s(3) by simp
  have "uint d0 < 8388608" "0 < uint period" "uint period < 8388608"
    using ud d0(3) up c s3 by linarith+
  then have b: "uint d0 < 2 ^ 23" "0 < uint period" "uint period < 2 ^ 23"
    by simp_all
  have d1: "d1 = word_of_int ((uint d0 + uint period - 1) div uint period * uint period)"
    using whole_periods_value(1) [OF b] wp by simp
  show "uint (signal_buffer_period g') = (uint (cw_sample_rate g) + uint f - 1) div uint f"
    by (simp add: g' up c_def rate_def)
  show "uint (signal_dit_length_index g')
       = (\<lfloor>t\<rfloor> + uint (signal_buffer_period g') - 1) div uint (signal_buffer_period g')
           * uint (signal_buffer_period g')"
    using whole_periods_value(2) [OF b] ud by (simp add: g' d1)
  show "0 < uint (signal_buffer_period g')" using b(2) by (simp add: g')
qed


section \<open>What table regeneration keeps and computes\<close>

lemma init_buffers_keeps:
  assumes "init_buffers P g = Inr g'"
  shows "cw_wpm g' = cw_wpm g" "cw_sample_rate g' = cw_sample_rate g"
    "cw_sample_buffer_size g' = cw_sample_buffer_size g" "cw_volume g' = cw_volume g"
    "cw_risetime g' = cw_risetime g" "curstate g' = curstate g" "nextstate g' = nextstate g"
    "curchar g' = curchar g" "cw_character_queue g' = cw_character_queue g"
    "inchar_endindex g' = inchar_endindex g" "pixel g' = pixel g"
    "cw_frequency g' = limit_frequency P (cw_frequency g)" "inchar_index g' = 0"
  using init_buffers_Inr [OF assms] by auto

lemma sane_config_cong:
  assumes "cw_sample_rate g' = cw_sample_rate g" "cw_wpm g' = cw_wpm g"
    "cw_volume g' = cw_volume g" "cw_risetime g' = cw_risetime g"
  shows "sane_config P g' = sane_config P g"
  by (simp add: sane_config_def assms)

lemma init_buffers_sane:
  assumes "init_buffers P g = Inr g'" "sane_config P g"
  shows "sane_config P g'"
  using assms(2) init_buffers_keeps [OF assms(1)] by (simp add: sane_config_def)

lemma bhaskara_sin_bounded: "\<bar>bhaskara_sin a\<bar> \<le> 1"
  by (simp add: bhaskara_sin_def Let_def abs_le_iff min_def max_def)

lemma default_dit: "\<lfloor>fl32 (fl32 (60 / of_int (50 * 20)) * of_int 48000)\<rfloor> = 2880"
  by code_simp

lemma power_on_state:
  "\<exists>g. power_on = Inr g \<and> sane_config reference_platform g
     \<and> curstate g = STATE_INIT \<and> nextstate g = STATE_IDLE \<and> cw_character_queue g = []
     \<and> cw_sample_rate g = 48000 \<and> cw_sample_buffer_size g = 48 \<and> cw_frequency g = 700
     \<and> cw_wpm g = 20 \<and> cw_volume g = 32767 \<and> cw_risetime g = 6
     \<and> signal_buffer_period g = 69 \<and> signal_dit_length_index g = 2898"
proof -
  define g0 :: CWGenerator where "g0 =
       \<lparr>curstate = STATE_INIT, nextstate = STATE_IDLE, curchar = CHAR_PAUSE,
        cw_sample_rate = 48000, cw_sample_buffer_size = 48,
        cw_frequency = 700, cw_wpm = 20,
        cw_volume = 32767,
        cw_risetime = 6, cw_risetime_samples = 0,
        signal_buffer = [], cw_keyshape = [], signal_buffer_period = 0,
        signal_dit_length_index = 0, inchar_index = 0, inchar_endindex = 0,
        cw_character_queue = [], pixel = 0\<rparr>"
  have sane: "sane_config reference_platform g0"
    by (simp add: sane_config_def g0_def reference_platform_def bhaskara_sin_bounded)
  obtain g1 where g1: "init_buffers reference_platform g0 = Inr g1"
    using init_buffers_returns [OF sane] by blast
  note keep = init_buffers_keeps [OF g1]
  have lf: "limit_frequency reference_platform (cw_frequency g0) = 700"
    by (simp add: limit_frequency_def reference_platform_def g0_def)
  have per: "uint (signal_buffer_period g1) = 69"
    using init_buffers_dit_length(1) [OF sane g1] by (simp add: lf) (simp add: g0_def)
  have dit: "uint (signal_dit_length_index g1) = 2898"
    using init_buffers_dit_length(2) [OF sane g1] default_dit by (simp add: per) (simp add: g0_def)
  have per': "signal_buffer_period g1 = 69" using per by (simp add: word_uint_eq_iff)
  have dit': "signal_dit_length_index g1 = 2898" using dit by (simp add: word_uint_eq_iff)
  have po: "power_on = Inr (g1\<lparr>pixel := WS2812_COLOR_OFF, cw_character_queue := []\<rparr>)"
    by (simp add: power_on_def CWGenerator_new_def DEFAULT_FREQUENCY_def DEFAULT_WPM_def
        DEFAULT_VOLUME_def DEFAULT_RISETIME_def g1 [unfolded g0_def])
  have sane1: "sane_config reference_platform (g1\<lparr>pixel := WS2812_COLOR_OFF, cw_character_queue := []\<rparr>)"
    using init_buffers_sane [OF g1 sane] by (simp add: sane_config_def)
  show ?thesis
    using po sane1 keep per' dit' lf
    by (intro exI [of _ "g1\<lparr>pixel := WS2812_COLOR_OFF, cw_character_queue := []\<rparr>"])
      (simp add: g0_def)
qed

lemma clamp_wpm:
  "(if wpm > WPM_MAX then WPM_MAX else (if wpm < WPM_MIN then WPM_MIN else wpm))
     = min (max wpm 10) 99"
  by (auto simp: min_def max_def WPM_MIN_def WPM_MAX_def word_less_def word_le_def
      word_uint_eq_iff)

lemma clamp_wpm_nz: "min (max wpm 10) 99 \<noteq> (0 :: 16 word)"
  by (auto simp: min_def max_def word_less_def word_le_def)

lemma set_wpm_returns:
  assumes "sane_config P g"
  shows "\<exists>g'. set_wpm P wpm g = Inr g' \<and> cw_wpm g' = min (max wpm 10) 99 \<and> sane_config P g'"
proof -
  define g2 where "g2 = g\<lparr>cw_wpm := min (max wpm 10) 99\<rparr>"
  have eq: "set_wpm P wpm g = init_buffers P g2"
    unfolding g2_def clamp_wpm [symmetric] by (simp add: set_wpm_def Let_def)
  have s2: "sane_config P g2"
    using assms clamp_wpm_nz [of wpm] by (simp add: sane_config_def g2_def)
  then obtain g' where g': "init_buffers P g2 = Inr g'"
    using init_buffers_returns by blast
  have w: "cw_wpm g' = min (max wpm 10) 99"
    using init_buffers_keeps(1) [OF g'] by (simp add: g2_def)
  show ?thesis
    using eq g' w init_buffers_sane [OF g' s2] by auto
qed

lemma power_on_facts:
  "power_on = Inr (projr power_on) \<and> sane_config reference_platform (projr power_on)
     \<and> curstate (projr power_on) = STATE_INIT \<and> nextstate (projr power_on) = STATE_IDLE
     \<and> cw_character_queue (projr power_on) = []
     \<and> cw_sample_rate (projr power_on) = 48000 \<and> cw_sample_buffer_size (projr power_on) = 48
     \<and> cw_frequency (projr power_on) = 700
     \<and> cw_wpm (projr power_on) = 20 \<and> cw_volume (projr power_on) = 32767
     \<and> cw_risetime (projr power_on) = 6
     \<and> signal_buffer_period (projr power_on) = 69
     \<and> signal_dit_length_index (projr power_on) = 2898"
proof -
  obtain g where g: "power_on = Inr g" and rest: "sane_config reference_platform g
     \<and> curstate g = STATE_INIT \<and> nextstate g = STATE_IDLE \<and> cw_character_queue g = []
     \<and> cw_sample_rate g = 48000 \<and> cw_sample_buffer_size g = 48 \<and> cw_frequency g = 700
     \<and> cw_wpm g = 20 \<and> cw_volume g = 32767 \<and> cw_risetime g = 6
     \<and> signal_buffer_period g = 69 \<and> signal_dit_length_index g = 2898"
    using power_on_state by blast
  have p: "projr power_on = g" by (simp only: g sum.sel)
  show ?thesis unfolding p using g rest by blast
qed

lemma set_frequency_returns:
  assumes "sane_config P g"
  shows "\<exists>g'. set_frequency P v g = Inr g' \<and> get_frequency g' = limit_frequency P v
           \<and> sane_config P g' \<and> cw_wpm g' = cw_wpm g
           \<and> cw_character_queue g' = cw_character_queue g"
proof -
  have "sane_config P (g\<lparr>cw_frequency := v\<rparr>)" using assms by (simp add: sane_config_def)
  then obtain g' where g': "init_buffers P (g\<lparr>cw_frequency := v\<rparr>) = Inr g'"
    and s: "sane_config P g'"
    using init_buffers_returns init_buffers_sane by blast
  show ?thesis
    using g' s init_buffers_keeps [OF g'] by (simp add: set_frequency_def get_frequency_def)
qed

lemma limit_frequency_in_range:
  "audio_minfreq P \<le> v \<Longrightarrow> v \<le> audio_maxfreq P \<Longrightarrow> limit_frequency P v = v"
  by (auto simp: limit_frequency_def Let_def)


section \<open>The speed setter\<close>

text \<open>
  C7. For every argument, \<^verbatim>\<open>set_wpm\<close> stores the speed limited to the range from 10 to 99,
  that is \<open>min (max wpm 10) 99\<close>, and \<^verbatim>\<open>get_wpm\<close> returns it afterwards; 150 becomes 99
  and 1 becomes 10. The call returns for every sane configuration.
\<close>

theorem set_wpm_clamps:
  assumes "sane_config P g"
  shows "\<exists>g'. set_wpm P wpm g = Inr g'
           \<and> cw_wpm g' = min (max wpm 10) 99 \<and> get_wpm g' = min (max wpm 10) 99
           \<and> (wpm = 150 \<longrightarrow> get_wpm g' = 99) \<and> (wpm = 1 \<longrightarrow> get_wpm g' = 10)"
  using set_wpm_returns [OF assms, of wpm] by (auto simp: get_wpm_def)

theorem set_wpm_clamps_witness:
  "sane_config reference_platform (projr power_on)
   \<and> (\<exists>g'. set_wpm reference_platform 150 (projr power_on) = Inr g' \<and> get_wpm g' = 99)"
proof -
  have s: "sane_config reference_platform (projr power_on)"
    using power_on_facts by simp
  show ?thesis
    using s set_wpm_clamps [OF s, of 150] by auto
qed


section \<open>The parser\<close>

lemma rd_in [simp]: "k < length m \<Longrightarrow> rd m k = Inr (m ! k)"
  by (simp add: rd_def)

lemma wr_in [simp]: "k < length m \<Longrightarrow> wr m k v = Inr (m[k := v])"
  by (simp add: wr_def)

declare parse_loop.simps [simp del]

lemma parse_loop_step:
  "i < len \<Longrightarrow> parse_loop P len i m wk =
     (case parse_byte P len i m wk of
        Inl e \<Rightarrow> Inl e
      | Inr (Return n m1 wk1) \<Rightarrow> Inr (n, m1, wk1)
      | Inr (Next k m1 wk1) \<Rightarrow> parse_loop P len (i + k + 1) m1 wk1)"
  by (subst parse_loop.simps) simp

lemma parse_loop_done: "\<not> i < len \<Longrightarrow> parse_loop P len i m wk = Inr (0, m, wk)"
  by (subst parse_loop.simps) simp

lemma parse_byte_admin:
  assumes "i < length m" "m ! i = 0"
  shows "parse_byte P len i m wk =
     and_then (parse_admin_command P m i len wk) (\<lambda>(n, m2, offs, wk1). Inr (Return n m2 wk1))"
proof -
  have "m[i := 0] = m" using assms by (metis list_update_id)
  then show ?thesis
    using assms by (simp add: parse_byte_def Let_def cw_mapping_min_ascii_def cw_mapping_max_ascii_def)
qed

lemma take_update_agree:
  assumes "take k m' = take k m" "n \<le> k"
  shows "take n (m'[j := v]) = take n (m[j := v])"
proof -
  have "take n m' = take n (take k m')" using assms(2) by (simp add: min_absorb1)
  also have "\<dots> = take n (take k m)" by (simp only: assms(1))
  also have "\<dots> = take n m" using assms(2) by (simp add: min_absorb1)
  finally show ?thesis by (simp add: take_update_swap)
qed

lemma take_nth_agree:
  assumes "take k m' = take k m" "j < k"
  shows "m' ! j = m ! j"
proof -
  have "m' ! j = take k m' ! j" using assms(2) by simp
  also have "\<dots> = take k m ! j" by (simp only: assms(1))
  finally show ?thesis using assms(2) by simp
qed

lemma rd_agree:
  assumes "take k m' = take k m" "length m' = length m" "j < k"
  shows "rd m' j = rd m j"
  using take_nth_agree [OF assms(1,3)] assms(2) by (simp add: rd_def)

text \<open>
  The admin command looks at its own bytes and at nothing behind them, it gives the same
  result when the message ends right behind it, and it leaves the queue of the generator
  alone.
\<close>

lemma parse_admin_command_tight:
  assumes "length m' = length m"
    "take (i + admin_command_bytes m i len) m' = take (i + admin_command_bytes m i len) m"
  shows "map_sum id (\<lambda>(n, b, offs, wk1). (take n b, wk1)) (parse_admin_command P m' i len wk)
       = map_sum id (\<lambda>(n, b, offs, wk1). (take n b, wk1)) (parse_admin_command P m i len wk)"
proof (cases "len - i < 2")
  case True
  then show ?thesis by (simp add: parse_admin_command_def)
next
  case False
  let ?k = "admin_command_bytes m i len"
  have k2: "2 \<le> ?k" using False by (simp add: admin_command_bytes_def)
  have t2: "take (i + 2) m' = take (i + 2) m"
  proof -
    have "take (i + 2) m' = take (i + 2) (take (i + ?k) m')" using k2 by (simp add: min_absorb1)
    also have "\<dots> = take (i + 2) (take (i + ?k) m)" by (simp only: assms(2))
    also have "\<dots> = take (i + 2) m" using k2 by (simp add: min_absorb1)
    finally show ?thesis .
  qed
  have r1: "rd m' (i + 1) = rd m (i + 1)"
    using t2 assms(1) by (rule rd_agree) simp
  have t: "\<And>n j v. n \<le> 2 \<Longrightarrow> take n (m'[j := v]) = take n (m[j := v])"
    using t2 by (rule take_update_agree) simp
  have tt: "\<And>n j v j' v'. n \<le> 2 \<Longrightarrow> take n (m'[j := v, j' := v']) = take n (m[j := v, j' := v'])"
    using t by (simp add: take_update_swap)
  show ?thesis
  proof (cases "rd m (i + 1)")
    case (Inl e)
    then show ?thesis using False r1 by (simp add: parse_admin_command_def and_then_def)
  next
    case (Inr c)
    then have c: "c = m ! (i + 1)" "i + 1 < length m"
      by (auto simp: rd_def split: if_splits)
    have r2: "rd m' (i + 2) = rd m (i + 2)" if "?k = 3"
      using assms(2) [unfolded that] assms(1) by (rule rd_agree) simp
    consider (f) "c = 27" | (e) "(c = 4 \<or> c = 26) \<and> 3 \<le> len - i"
      | (s) "c \<noteq> 27" "\<not> ((c = 4 \<or> c = 26) \<and> 3 \<le> len - i)" by blast
    then show ?thesis
    proof cases
      case f
      then have "?k = 3" using False c by (simp add: admin_command_bytes_def)
      note r2 = r2 [OF this]
      show ?thesis
        unfolding parse_admin_command_def r1 r2 Inr
        using f False
        by (cases "rd m (i + 2)")
          (auto simp: and_then_def with_generator_def split: sum.splits)
    next
      case e
      then have "?k = 3" using False c by (auto simp: admin_command_bytes_def)
      note r2 = r2 [OF this]
      show ?thesis
        unfolding parse_admin_command_def r1 r2 Inr
        using e False
        by (cases "rd m (i + 2)")
          (auto simp: wr_def assms(1) t and_then_def with_generator_def split: sum.splits)
    next
      case s
      show ?thesis
        unfolding parse_admin_command_def r1 Inr
        using s False
        by (auto simp: wr_def assms(1) t tt and_then_def with_generator_def split: sum.splits)
    qed
  qed
qed

lemma parse_admin_command_cut:
  assumes "i < len"
  shows "parse_admin_command P m i (min len (i + admin_command_bytes m i len)) wk
       = parse_admin_command P m i len wk"
proof (cases "len - i < 2")
  case True
  then have "min len (i + admin_command_bytes m i len) = len"
    using assms by (simp add: admin_command_bytes_def)
  then show ?thesis by simp
next
  case False
  let ?k = "admin_command_bytes m i len"
  let ?l = "min len (i + ?k)"
  have k: "?k = 2 \<or> ?k = 3" using False by (simp add: admin_command_bytes_def)
  have l2: "\<not> ?l - i < 2" using False k by auto
  show ?thesis
  proof (cases "rd m (i + 1)")
    case (Inl e)
    then show ?thesis using False l2 by (simp add: parse_admin_command_def and_then_def)
  next
    case (Inr c)
    then have c: "c = m ! (i + 1)"
      by (auto simp: rd_def split: if_splits)
    have l3: "3 \<le> ?l - i \<longleftrightarrow> 3 \<le> len - i" if "c = 4 \<or> c = 26"
      using that False c by (auto simp: admin_command_bytes_def)
    show ?thesis
      unfolding parse_admin_command_def Inr
      using False l2 l3 by (simp add: and_then_def)
  qed
qed

lemma admin_loop:
  assumes "i < len" "i < length b" "b ! i = 0"
  shows "parse_loop P len i b wk
      = and_then (parse_admin_command P b i len wk) (\<lambda>(n, m1, offs, wk1). Inr (n, m1, wk1))"
  using assms
  by (cases "parse_admin_command P b i len wk")
    (auto simp: parse_loop_step parse_byte_admin)

lemma admin_outcome:
  assumes "i < len" "i < length b" "b ! i = 0"
  shows "outcome (parse_loop P len i b wk)
      = map_sum id (\<lambda>(n, b, offs, wk1). (take n b, wk1)) (parse_admin_command P b i len wk)"
  unfolding admin_loop [OF assms]
  by (cases "parse_admin_command P b i len wk") (auto simp: outcome_def)

lemma with_generator_queue:
  assumes "with_generator wk (init_buffers P g) = Inr wk1"
    "cw_character_queue g = cw_character_queue (cw_generator wk)"
  shows "cw_character_queue (cw_generator wk1) = cw_character_queue (cw_generator wk)"
proof -
  obtain g' where g': "init_buffers P g = Inr g'" "wk1 = wk\<lparr>cw_generator := g'\<rparr>"
    using assms(1) by (cases "init_buffers P g") (auto simp: with_generator_def and_then_def)
  show ?thesis using init_buffers_keeps(9) [OF g'(1)] g'(2) assms(2) by simp
qed

lemma parse_admin_command_queue:
  assumes "parse_admin_command P m i len wk = Inr (n, b, offs, wk1)"
  shows "cw_character_queue (cw_generator wk1) = cw_character_queue (cw_generator wk)"
    and "len - i < 2 \<or> (m ! (i + 1) \<noteq> 26 \<and> m ! (i + 1) \<noteq> 27)
           \<Longrightarrow> cw_generator wk1 = cw_generator wk"
proof -
  have q: "cw_character_queue (cw_generator w) = cw_character_queue (cw_generator wk)"
    if "with_generator wk (set_risetime P x (cw_generator wk)) = Inr w" for x w
    using that unfolding set_risetime_def by (rule with_generator_queue) simp
  have q': "cw_character_queue (cw_generator w) = cw_character_queue (cw_generator wk)"
    if "with_generator wk (set_frequency P x (cw_generator wk)) = Inr w" for x w
    using that unfolding set_frequency_def by (rule with_generator_queue) simp
  show "cw_character_queue (cw_generator wk1) = cw_character_queue (cw_generator wk)"
    using assms q q'
    by (auto simp: parse_admin_command_def and_then_def rd_def wr_def
        split: if_splits sum.splits)
  show "cw_generator wk1 = cw_generator wk"
    if "len - i < 2 \<or> (m ! (i + 1) \<noteq> 26 \<and> m ! (i + 1) \<noteq> 27)"
    using assms that
    by (auto simp: parse_admin_command_def and_then_def rd_def wr_def
        split: if_splits sum.splits)
qed

lemma parse_byte_sidetone:
  assumes "i + 1 < len" "len \<le> length m" "m ! i = 1"
  shows "parse_byte P len i m wk = and_then (sidetone_freq P m i wk) (\<lambda>wk1. Inr (Next 1 m wk1))"
proof -
  have l: "i < length m" "2 \<le> len" using assms(1,2) by auto
  have "m[i := 1] = m" using assms(3) l(1) by (metis list_update_id)
  then show ?thesis
    using assms l
    by (simp add: parse_byte_def Let_def cw_mapping_min_ascii_def cw_mapping_max_ascii_def
        word_le_def)
qed


section \<open>Claims about the parser\<close>

text \<open>
  C9. Parsing the Host Open admin command, the bytes 0x00 0x02, returns a reply of two
  bytes, 31 and 3, and sets the session version to 1.
\<close>

theorem host_open_reply:
  assumes "i + 1 < len" "len \<le> length m" "m ! i = 0" "m ! (i + 1) = 2"
  shows "parse_loop P len i m wk = Inr (2, m[0 := 31, 1 := 3], wk\<lparr>wk_version := 1\<rparr>)
       \<and> take 2 (m[0 := 31, 1 := 3]) = [31, 3]
       \<and> (i = 0 \<longrightarrow> parse_message P m len maxsize wk
             = Inr (2, m[0 := 31, 1 := 3], wk\<lparr>wk_version := 1\<rparr>))"
proof -
  have l: "i < len" "i < length m" "i + 1 < length m" "0 < length m" "1 < length m" "len \<noteq> 0"
    using assms(1,2) by auto
  have adm: "parse_admin_command P m i len wk
      = Inr (2, m[0 := 31, 1 := 3], i + 1, wk\<lparr>wk_version := 1\<rparr>)"
    using assms l by (simp add: parse_admin_command_def)
  have pb: "parse_byte P len i m wk = Inr (Return 2 (m[0 := 31, 1 := 3]) (wk\<lparr>wk_version := 1\<rparr>))"
    by (simp add: parse_byte_admin [OF l(2) assms(3)] adm)
  have loop: "parse_loop P len i m wk = Inr (2, m[0 := 31, 1 := 3], wk\<lparr>wk_version := 1\<rparr>)"
    using l(1) by (simp add: parse_loop_step pb)
  obtain a b r where m: "m = a # b # r"
    using l(5) by (cases m; cases "tl m") auto
  have t: "take 2 (m[0 := 31, 1 := 3]) = [31, 3]"
    by (simp add: m)
  show ?thesis
    using loop t l(6) by (auto simp: parse_message_def)
qed

theorem host_open_reply_witness:
  "(0::nat) + 1 < 2 \<and> (2::nat) \<le> length [0, 2 :: 8 word] \<and> [0, 2 :: 8 word] ! 0 = 0
   \<and> [0, 2 :: 8 word] ! (0 + 1) = 2
   \<and> parse_message reference_platform [0, 2] 2 64 (WinKeyerParser_new (projr power_on))
       = Inr (2, [31, 3], (WinKeyerParser_new (projr power_on))\<lparr>wk_version := 1\<rparr>)"
  using host_open_reply [of 0 2 "[0, 2]" reference_platform "WinKeyerParser_new (projr power_on)" 64]
  by simp

text \<open>
  C10. Whenever \<^verbatim>\<open>parse_message\<close> comes upon the admin byte 0x00, at any position, it
  returns right after that one admin command: what follows the command in the same read,
  text or commands, is not interpreted. The loop returns the result of the admin command;
  the result is that of the message cut off right behind the command; reply and parser do
  not depend on any byte behind the command; no symbol is queued, and the generator is
  touched by the sub-commands 26 and 27 only.
\<close>

theorem admin_command_ends_message:
  assumes "i < len" "i < length m" "m ! i = 0"
  shows "parse_loop P len i m wk
           = and_then (parse_admin_command P m i len wk) (\<lambda>(n, m1, offs, wk1). Inr (n, m1, wk1))
       \<and> parse_loop P (min len (i + admin_command_bytes m i len)) i m wk = parse_loop P len i m wk
       \<and> (\<forall>m'. length m' = length m
               \<and> take (i + admin_command_bytes m i len) m' = take (i + admin_command_bytes m i len) m
             \<longrightarrow> outcome (parse_loop P len i m' wk) = outcome (parse_loop P len i m wk))
       \<and> (\<forall>n b wk1. parse_loop P len i m wk = Inr (n, b, wk1) \<longrightarrow>
             cw_character_queue (cw_generator wk1) = cw_character_queue (cw_generator wk)
             \<and> (len - i < 2 \<or> (m ! (i + 1) \<noteq> 26 \<and> m ! (i + 1) \<noteq> 27)
                  \<longrightarrow> cw_generator wk1 = cw_generator wk))
       \<and> (i = 0 \<longrightarrow> parse_message P m len maxsize wk = parse_loop P len i m wk)"
proof -
  let ?k = "admin_command_bytes m i len"
  have k: "1 \<le> ?k" by (simp add: admin_command_bytes_def)
  have il: "i < min len (i + ?k)" using assms(1) k by simp
  have a: "parse_loop P len i m wk
      = and_then (parse_admin_command P m i len wk) (\<lambda>(n, m1, offs, wk1). Inr (n, m1, wk1))"
    using assms by (rule admin_loop)
  have b: "parse_loop P (min len (i + ?k)) i m wk = parse_loop P len i m wk"
    unfolding admin_loop [OF il assms(2,3)] a
    by (simp only: parse_admin_command_cut [OF assms(1)])
  have c: "outcome (parse_loop P len i m' wk) = outcome (parse_loop P len i m wk)"
    if "length m' = length m" "take (i + ?k) m' = take (i + ?k) m" for m'
  proof -
    have "m' ! i = m ! i" using that(2) by (rule take_nth_agree) (use k in simp)
    then have z: "m' ! i = 0" using assms(3) by simp
    have l: "i < length m'" using assms(2) that(1) by simp
    show ?thesis
      unfolding admin_outcome [OF assms(1) l z] admin_outcome [OF assms]
      using that by (rule parse_admin_command_tight)
  qed
  have d: "cw_character_queue (cw_generator wk1) = cw_character_queue (cw_generator wk)
      \<and> (len - i < 2 \<or> (m ! (i + 1) \<noteq> 26 \<and> m ! (i + 1) \<noteq> 27)
            \<longrightarrow> cw_generator wk1 = cw_generator wk)"
    if "parse_loop P len i m wk = Inr (n, b, wk1)" for n b wk1
  proof -
    have "and_then (parse_admin_command P m i len wk) (\<lambda>(n, m1, offs, wk1). Inr (n, m1, wk1))
        = Inr (n, b, wk1)"
      using that a by simp
    then obtain offs where p: "parse_admin_command P m i len wk = Inr (n, b, offs, wk1)"
      by (cases "parse_admin_command P m i len wk") (auto simp: and_then_def)
    show ?thesis
      using parse_admin_command_queue [OF p] by blast
  qed
  have e: "parse_message P m len maxsize wk = parse_loop P len i m wk" if "i = 0"
    using that assms(1) by (simp add: parse_message_def)
  show ?thesis
    using a b c d e by blast
qed

theorem admin_command_ends_message_witness:
  "(0::nat) < 5 \<and> (0::nat) < length [0, 10, 0x41, 0x02, 0x1E :: 8 word]
   \<and> [0, 10, 0x41, 0x02, 0x1E :: 8 word] ! 0 = 0
   \<and> admin_command_bytes [0, 10, 0x41, 0x02, 0x1E] 0 5 = 2
   \<and> outcome (parse_message reference_platform [0, 10, 0x41, 0x02, 0x1E] 5 64
        (WinKeyerParser_new (projr power_on)))
     = Inr ([], (WinKeyerParser_new (projr power_on))\<lparr>wk_version := 1\<rparr>)
   \<and> outcome (parse_loop reference_platform 5 0 [0, 10, 0x07, 0x15, 0x42]
        (WinKeyerParser_new (projr power_on)))
     = outcome (parse_loop reference_platform 5 0 [0, 10, 0x41, 0x02, 0x1E]
        (WinKeyerParser_new (projr power_on)))
   \<and> parse_loop reference_platform 2 0 [0, 10, 0x41, 0x02, 0x1E]
        (WinKeyerParser_new (projr power_on))
     = parse_loop reference_platform 5 0 [0, 10, 0x41, 0x02, 0x1E]
        (WinKeyerParser_new (projr power_on))"
proof -
  have k: "admin_command_bytes [0, 10, 0x41, 0x02, 0x1E] 0 5 = 2"
    by (simp add: admin_command_bytes_def)
  have l: "min (5::nat) (0 + 2) = 2"
    by simp
  have t: "length [0, 10, 0x07, 0x15, 0x42 :: 8 word] = length [0, 10, 0x41, 0x02, 0x1E :: 8 word]
      \<and> take (0 + 2) [0, 10, 0x07, 0x15, 0x42 :: 8 word] = take (0 + 2) [0, 10, 0x41, 0x02, 0x1E]"
    by simp
  have p: "parse_admin_command reference_platform [0, 10, 0x41, 0x02, 0x1E] 0 5
        (WinKeyerParser_new (projr power_on))
      = Inr (0, [0, 10, 0x41, 0x02, 0x1E], 0 + 1, (WinKeyerParser_new (projr power_on))\<lparr>wk_version := 1\<rparr>)"
    by (simp add: parse_admin_command_def)
  have "(0::nat) < 5" "(0::nat) < length [0, 10, 0x41, 0x02, 0x1E :: 8 word]"
    "[0, 10, 0x41, 0x02, 0x1E :: 8 word] ! 0 = 0"
    by simp_all
  note th = admin_command_ends_message [OF this, of reference_platform
        "WinKeyerParser_new (projr power_on)" 64, unfolded k l p]
  have a: "parse_loop reference_platform 5 0 [0, 10, 0x41, 0x02, 0x1E]
        (WinKeyerParser_new (projr power_on))
      = Inr (0, [0, 10, 0x41, 0x02, 0x1E], (WinKeyerParser_new (projr power_on))\<lparr>wk_version := 1\<rparr>)"
    using th by (simp add: and_then_def)
  have b: "parse_loop reference_platform 2 0 [0, 10, 0x41, 0x02, 0x1E]
        (WinKeyerParser_new (projr power_on))
     = parse_loop reference_platform 5 0 [0, 10, 0x41, 0x02, 0x1E]
        (WinKeyerParser_new (projr power_on))"
    using th by blast
  have c: "outcome (parse_loop reference_platform 5 0 [0, 10, 0x07, 0x15, 0x42]
        (WinKeyerParser_new (projr power_on)))
     = outcome (parse_loop reference_platform 5 0 [0, 10, 0x41, 0x02, 0x1E]
        (WinKeyerParser_new (projr power_on)))"
    using th t by blast
  have d: "parse_message reference_platform [0, 10, 0x41, 0x02, 0x1E] 5 64
        (WinKeyerParser_new (projr power_on))
      = parse_loop reference_platform 5 0 [0, 10, 0x41, 0x02, 0x1E]
        (WinKeyerParser_new (projr power_on))"
    using th by blast
  show ?thesis
    using k b c unfolding d a by (simp add: outcome_def)
qed

text \<open>
  C8. On the command byte 0x01 with a parameter byte behind it: in session version 1 or 2
  a parameter from 1 to 10 sets the frequency from the table of eleven entries, at the
  index the parameter gives; in session version 3 a parameter from 15 to 125 sets the
  frequency to 62500 divided by the parameter, as integers; any other parameter leaves the
  frequency as it is. The setter keeps the frequency within the audio range.
\<close>

theorem sidetone_frequency:
  assumes "i + 1 < len" "len \<le> length m" "m ! i = 1" "sane_config P (cw_generator wk)"
  shows "((wk_version wk = 1 \<or> wk_version wk = 2) \<and> 1 \<le> m ! (i + 1) \<and> m ! (i + 1) \<le> 10 \<longrightarrow>
           (\<exists>g. set_frequency P (WK12_FREQUENCY_LIST ! unat (m ! (i + 1))) (cw_generator wk) = Inr g
              \<and> get_frequency g = limit_frequency P (WK12_FREQUENCY_LIST ! unat (m ! (i + 1)))
              \<and> parse_byte P len i m wk = Inr (Next 1 m (wk\<lparr>cw_generator := g\<rparr>))))
       \<and> (wk_version wk = 3 \<and> 15 \<le> m ! (i + 1) \<and> m ! (i + 1) \<le> 125 \<longrightarrow>
           (\<exists>g. set_frequency P (word_of_int (62500 div uint (m ! (i + 1)))) (cw_generator wk) = Inr g
              \<and> get_frequency g = limit_frequency P (word_of_int (62500 div uint (m ! (i + 1))))
              \<and> parse_byte P len i m wk = Inr (Next 1 m (wk\<lparr>cw_generator := g\<rparr>))))
       \<and> (((wk_version wk = 1 \<or> wk_version wk = 2) \<and> \<not> (1 \<le> m ! (i + 1) \<and> m ! (i + 1) \<le> 10))
            \<or> (wk_version wk = 3 \<and> \<not> (15 \<le> m ! (i + 1) \<and> m ! (i + 1) \<le> 125)) \<longrightarrow>
           parse_byte P len i m wk = Inr (Next 1 m wk))
       \<and> (\<forall>v. audio_minfreq P \<le> v \<and> v \<le> audio_maxfreq P \<longrightarrow> limit_frequency P v = v)"
proof -
  have l: "i + 1 < length m" using assms(1,2) by simp
  note pb = parse_byte_sidetone [OF assms(1-3)]
  have a: "\<exists>g. set_frequency P v (cw_generator wk) = Inr g \<and> get_frequency g = limit_frequency P v"
    for v using set_frequency_returns [OF assms(4)] by blast
  have 1: "\<exists>g. set_frequency P (WK12_FREQUENCY_LIST ! unat (m ! (i + 1))) (cw_generator wk) = Inr g
              \<and> get_frequency g = limit_frequency P (WK12_FREQUENCY_LIST ! unat (m ! (i + 1)))
              \<and> parse_byte P len i m wk = Inr (Next 1 m (wk\<lparr>cw_generator := g\<rparr>))"
    if "wk_version wk = 1 \<or> wk_version wk = 2" "1 \<le> m ! (i + 1)" "m ! (i + 1) \<le> 10"
  proof -
    obtain g where g: "set_frequency P (WK12_FREQUENCY_LIST ! unat (m ! (i + 1))) (cw_generator wk) = Inr g"
      "get_frequency g = limit_frequency P (WK12_FREQUENCY_LIST ! unat (m ! (i + 1)))"
      using a by blast
    have "wk_version wk < 3" using that(1) by auto
    then have "parse_byte P len i m wk = Inr (Next 1 m (wk\<lparr>cw_generator := g\<rparr>))"
      using that(2,3) l g(1) by (simp add: pb sidetone_freq_def with_generator_def)
    then show ?thesis using g by blast
  qed
  have 2: "\<exists>g. set_frequency P (word_of_int (62500 div uint (m ! (i + 1)))) (cw_generator wk) = Inr g
              \<and> get_frequency g = limit_frequency P (word_of_int (62500 div uint (m ! (i + 1))))
              \<and> parse_byte P len i m wk = Inr (Next 1 m (wk\<lparr>cw_generator := g\<rparr>))"
    if "wk_version wk = 3" "15 \<le> m ! (i + 1)" "m ! (i + 1) \<le> 125"
  proof -
    obtain g where g: "set_frequency P (word_of_int (62500 div uint (m ! (i + 1)))) (cw_generator wk) = Inr g"
      "get_frequency g = limit_frequency P (word_of_int (62500 div uint (m ! (i + 1))))"
      using a by blast
    have "parse_byte P len i m wk = Inr (Next 1 m (wk\<lparr>cw_generator := g\<rparr>))"
      using that l g(1) by (simp add: pb sidetone_freq_def with_generator_def)
    then show ?thesis using g by blast
  qed
  have 3: "parse_byte P len i m wk = Inr (Next 1 m wk)"
    if "((wk_version wk = 1 \<or> wk_version wk = 2) \<and> \<not> (1 \<le> m ! (i + 1) \<and> m ! (i + 1) \<le> 10))
            \<or> (wk_version wk = 3 \<and> \<not> (15 \<le> m ! (i + 1) \<and> m ! (i + 1) \<le> 125))"
    using that l by (auto simp: pb sidetone_freq_def with_generator_def)
  show ?thesis using 1 2 3 limit_frequency_in_range by blast
qed

theorem sidetone_frequency_witness:
  "(0::nat) + 1 < 2 \<and> (2::nat) \<le> length [1, 25 :: 8 word] \<and> [1, 25 :: 8 word] ! 0 = 1
   \<and> sane_config reference_platform (cw_generator (WinKeyerParser_new (projr power_on)))
   \<and> wk_version (WinKeyerParser_new (projr power_on)) = 3
   \<and> (15 :: 8 word) \<le> [1, 25] ! (0 + 1) \<and> [1, 25 :: 8 word] ! (0 + 1) \<le> 125
   \<and> (\<exists>g. set_frequency reference_platform 2500 (projr power_on) = Inr g
          \<and> get_frequency g = 2500
          \<and> parse_byte reference_platform 2 0 [1, 25] (WinKeyerParser_new (projr power_on))
              = Inr (Next 1 [1, 25] ((WinKeyerParser_new (projr power_on))\<lparr>cw_generator := g\<rparr>)))"
proof -
  have s: "sane_config reference_platform (cw_generator (WinKeyerParser_new (projr power_on)))"
    using power_on_facts by (simp add: WinKeyerParser_new_def)
  have lf: "limit_frequency reference_platform 2500 = 2500"
    by (simp add: limit_frequency_def reference_platform_def)
  show ?thesis
    using s lf
      sidetone_frequency [of 0 2 "[1, 25]" reference_platform "WinKeyerParser_new (projr power_on)"]
    by (simp add: WinKeyerParser_new_def)
qed

text \<open>
  C3, at a message of two bytes, 0x03 0x02, in a buffer whose third byte still holds 0x1E
  from before: the speed command starts at the last byte received, and the parser takes
  the stale byte for its parameter. The speed goes from 20 to 30.
\<close>

theorem speed_command_at_last_byte:
  "get_wpm (projr power_on) = 20
   \<and> map_sum id (\<lambda>(n, m, wk). (n, get_wpm (cw_generator wk)))
       (parse_message reference_platform ([0x03, 0x02, 0x1E] @ replicate 61 0) 2 64
          (WinKeyerParser_new (projr power_on)))
     = Inr (0, 30)"
proof -
  define m :: "8 word list" where "m = [0x03, 0x02, 0x1E] @ replicate 61 0"
  define wk where "wk = WinKeyerParser_new (projr power_on)"
  have lm: "length m = 64" by (simp add: m_def)
  have m0: "m ! 0 = 3" and m1: "m ! 1 = 2" and m2: "m ! Suc (Suc 0) = 30"
    by (simp_all add: m_def)
  have s: "sane_config reference_platform (cw_generator wk)"
    using power_on_facts by (simp add: wk_def WinKeyerParser_new_def)
  obtain g' where g': "set_wpm reference_platform 30 (cw_generator wk) = Inr g'" "cw_wpm g' = 30"
    using set_wpm_returns [OF s, of 30] by auto
  have u0: "m[0 := 3] = m" using m0 lm by (metis list_update_id)
  have u1: "m[1 := 2] = m" using m1 lm by (metis list_update_id)
  have b0: "parse_byte reference_platform 2 0 m wk = Inr (Next 0 m wk)"
    using lm m0 u0
    by (simp add: parse_byte_def Let_def cw_mapping_min_ascii_def cw_mapping_max_ascii_def
        word_le_def)
  have b1: "parse_byte reference_platform 2 1 m wk = Inr (Next 1 m (wk\<lparr>cw_generator := g'\<rparr>))"
    using lm m1 m2 u1 g'(1)
    by (simp add: parse_byte_def Let_def cw_mapping_min_ascii_def cw_mapping_max_ascii_def
        word_le_def with_generator_def)
  have "parse_loop reference_platform 2 0 m wk = parse_loop reference_platform 2 1 m wk"
    using b0 by (simp add: parse_loop_step)
  also have "\<dots> = parse_loop reference_platform 2 (Suc (Suc (Suc 0))) m (wk\<lparr>cw_generator := g'\<rparr>)"
    using b1 by (simp add: parse_loop_step)
  also have "\<dots> = Inr (0, m, wk\<lparr>cw_generator := g'\<rparr>)"
    by (simp add: parse_loop_done)
  finally have "parse_message reference_platform m 2 64 wk = Inr (0, m, wk\<lparr>cw_generator := g'\<rparr>)"
    by (simp add: parse_message_def)
  then show ?thesis
    unfolding m_def [symmetric] wk_def [symmetric]
    using g'(2) power_on_facts by (simp add: get_wpm_def)
qed


section \<open>Claims about the state machine\<close>

lemma colors_differ:
  "WS2812_COLOR_PADDLE \<noteq> WS2812_COLOR_SERIAL" "WS2812_COLOR_PADDLE \<noteq> WS2812_COLOR_OFF"
  "WS2812_COLOR_SERIAL \<noteq> WS2812_COLOR_OFF"
  by (simp_all add: WS2812_COLOR_PADDLE_def WS2812_COLOR_SERIAL_def WS2812_COLOR_OFF_def)

text \<open>
  C5. If the Dah paddle reads pressed during a DitPause and still reads pressed at the tick
  on which the progress of the pause exceeds its end index, the state machine goes from
  DitPause to Dah on that tick, with no Idle tick in between; the same holds for DahPause
  and the Dit paddle.
\<close>

theorem squeeze_keying:
  "(curstate g = STATE_DIT_PAUSE \<and> \<not> inchar_index g > inchar_endindex g \<longrightarrow>
      (\<exists>g'. update_statemachine dit True g = Inr g' \<and> curstate g' = STATE_DIT_PAUSE
            \<and> nextstate g' = STATE_DAH \<and> inchar_endindex g' = inchar_endindex g
            \<and> inchar_index g' = inchar_index g + cw_sample_buffer_size g))
   \<and> (curstate g = STATE_DIT_PAUSE \<and> inchar_index g > inchar_endindex g \<longrightarrow>
      (\<exists>g'. update_statemachine dit True g = Inr g' \<and> curstate g' = STATE_DAH
            \<and> inchar_endindex g' = signal_dit_length_index g * 3))
   \<and> (curstate g = STATE_DAH_PAUSE \<and> \<not> inchar_index g > inchar_endindex g \<longrightarrow>
      (\<exists>g'. update_statemachine True dah g = Inr g' \<and> curstate g' = STATE_DAH_PAUSE
            \<and> nextstate g' = STATE_DIT \<and> inchar_endindex g' = inchar_endindex g
            \<and> inchar_index g' = inchar_index g + cw_sample_buffer_size g))
   \<and> (curstate g = STATE_DAH_PAUSE \<and> inchar_index g > inchar_endindex g \<longrightarrow>
      (\<exists>g'. update_statemachine True dah g = Inr g' \<and> curstate g' = STATE_DIT
            \<and> inchar_endindex g' = signal_dit_length_index g * 1))"
  by (simp add: update_statemachine_def expiry_tick_def set_state_def put_pixel_def Let_def
      DAH_UNITS_def DIT_UNITS_def)

theorem squeeze_keying_witness:
  "curstate ((projr power_on)\<lparr>curstate := STATE_DIT_PAUSE, inchar_index := 2928, inchar_endindex := 2898\<rparr>)
     = STATE_DIT_PAUSE
   \<and> inchar_index ((projr power_on)\<lparr>curstate := STATE_DIT_PAUSE, inchar_index := 2928, inchar_endindex := 2898\<rparr>)
     > inchar_endindex ((projr power_on)\<lparr>curstate := STATE_DIT_PAUSE, inchar_index := 2928, inchar_endindex := 2898\<rparr>)
   \<and> (\<exists>g'. update_statemachine False True
          ((projr power_on)\<lparr>curstate := STATE_DIT_PAUSE, inchar_index := 2928, inchar_endindex := 2898\<rparr>)
          = Inr g' \<and> curstate g' = STATE_DAH)"
  using squeeze_keying [of "(projr power_on)\<lparr>curstate := STATE_DIT_PAUSE, inchar_index := 2928,
      inchar_endindex := 2898\<rparr>" False True]
  by (auto simp: word_less_def)

text \<open>
  C6. On every Idle tick at which the Dit or the Dah paddle reads pressed, or a look-ahead
  symbol of the pause before is pending, the state machine empties the transmission queue
  and enters the Dit or Dah state of that paddle or symbol: a symbol queued over serial
  before is not sent. A queued symbol is taken only when no paddle is pressed and no
  look-ahead symbol is pending.
\<close>

theorem paddle_preempts_queue:
  assumes "curstate g = STATE_IDLE"
  shows "(nextstate g = STATE_DIT \<or> nextstate g = STATE_DAH \<or> dit \<or> dah \<longrightarrow>
           (\<exists>g'. update_statemachine dit dah g = Inr g' \<and> cw_character_queue g' = []
              \<and> pixel g' = WS2812_COLOR_PADDLE
              \<and> curstate g' = (if nextstate g = STATE_DIT then STATE_DIT
                               else if nextstate g = STATE_DAH then STATE_DAH
                               else if dit then STATE_DIT else STATE_DAH)))
       \<and> (nextstate g \<noteq> STATE_DIT \<and> nextstate g \<noteq> STATE_DAH \<and> \<not> dit \<and> \<not> dah \<longrightarrow>
           (\<exists>g'. update_statemachine dit dah g = Inr g'
              \<and> (case cw_character_queue g of
                    [] \<Rightarrow> cw_character_queue g' = [] \<and> curstate g' = STATE_IDLE
                      \<and> pixel g' = WS2812_COLOR_OFF
                  | c # cs \<Rightarrow> cw_character_queue g' = cs \<and> pixel g' = WS2812_COLOR_SERIAL
                      \<and> curstate g' = (case c of CHAR_DIT \<Rightarrow> STATE_DIT | CHAR_DAH \<Rightarrow> STATE_DAH
                                        | CHAR_PAUSE \<Rightarrow> STATE_DAH_PAUSE))))
       \<and> (\<forall>g'. update_statemachine dit dah g = Inr g' \<and> pixel g' = WS2812_COLOR_SERIAL \<longrightarrow>
             nextstate g \<noteq> STATE_DIT \<and> nextstate g \<noteq> STATE_DAH \<and> \<not> dit \<and> \<not> dah
             \<and> cw_character_queue g \<noteq> [] \<and> cw_character_queue g' = tl (cw_character_queue g))"
  using assms colors_differ
  by (cases "cw_character_queue g")
    (auto simp: update_statemachine_def idle_tick_def set_state_def put_pixel_def clear_queue_def
      queue_try_remove_def Let_def split: CW_CHARACTERS.splits)

theorem paddle_preempts_queue_witness:
  "curstate ((projr power_on)\<lparr>curstate := STATE_IDLE, cw_character_queue := [CHAR_DAH, CHAR_PAUSE, CHAR_PAUSE]\<rparr>)
     = STATE_IDLE
   \<and> (\<exists>g'. update_statemachine True False
          ((projr power_on)\<lparr>curstate := STATE_IDLE, cw_character_queue := [CHAR_DAH, CHAR_PAUSE, CHAR_PAUSE]\<rparr>)
          = Inr g' \<and> cw_character_queue g' = [] \<and> curstate g' = STATE_DIT)
   \<and> (\<exists>g'. update_statemachine False False
          ((projr power_on)\<lparr>curstate := STATE_IDLE, cw_character_queue := [CHAR_DAH, CHAR_PAUSE, CHAR_PAUSE]\<rparr>)
          = Inr g' \<and> cw_character_queue g' = [CHAR_PAUSE, CHAR_PAUSE] \<and> curstate g' = STATE_DAH)"
  using paddle_preempts_queue [of "(projr power_on)\<lparr>curstate := STATE_IDLE,
      cw_character_queue := [CHAR_DAH, CHAR_PAUSE, CHAR_PAUSE]\<rparr>" True False]
    paddle_preempts_queue [of "(projr power_on)\<lparr>curstate := STATE_IDLE,
      cw_character_queue := [CHAR_DAH, CHAR_PAUSE, CHAR_PAUSE]\<rparr>" False False]
    power_on_facts
  by auto

lemma run_ticks_Cons:
  "run_ticks (p # ps) g = and_then (update_statemachine (fst p) (snd p) g) (run_ticks ps)"
  by (cases p) simp

lemma init_tick:
  assumes "curstate g = STATE_INIT" "signal_buffer_period g \<noteq> 0"
  shows "update_statemachine dit dah g
    = Inr (g\<lparr>inchar_index := cw_sample_buffer_size g,
             inchar_endindex := cw_sample_rate g div signal_buffer_period g,
             curstate := STATE_INIT_PAUSE\<rparr>)"
  using assms by (simp add: update_statemachine_def)

lemma init_pause_tick:
  assumes "curstate g = STATE_INIT_PAUSE"
  shows "update_statemachine dit dah g
    = Inr (if inchar_index g > inchar_endindex g
           then g\<lparr>inchar_index := cw_sample_buffer_size g, curstate := STATE_IDLE\<rparr>
           else g\<lparr>inchar_index := inchar_index g + cw_sample_buffer_size g\<rparr>)"
  using assms by (simp add: update_statemachine_def expiry_tick_def Let_def)

text \<open>
  C4, from the generator as it is after power-on (48000 samples per second, 48 samples per
  tick, a tone period of 69 samples): the first tick enters InitPause with the end index
  \<open>48000 div 69 = 695\<close>; the progress counter grows by 48 per tick, so the sixteenth
  tick enters Idle. One second of audio is 1000 ticks.
\<close>

theorem init_pause_length:
  "cw_sample_rate (projr power_on) div cw_sample_buffer_size (projr power_on) = 1000
   \<and> map_sum id (\<lambda>g. (curstate g, inchar_endindex g))
         (run_ticks (replicate 1 (False, False)) (projr power_on)) = Inr (STATE_INIT_PAUSE, 695)
   \<and> map_sum id curstate (run_ticks (replicate 15 (False, False)) (projr power_on))
       = Inr STATE_INIT_PAUSE
   \<and> map_sum id curstate (run_ticks (replicate 16 (False, False)) (projr power_on))
       = Inr STATE_IDLE"
proof -
  define g where "g = projr power_on"
  have f: "curstate g = STATE_INIT" "signal_buffer_period g = 69" "cw_sample_rate g = 48000"
    "cw_sample_buffer_size g = 48"
    using power_on_facts by (simp_all add: g_def)
  define s where "s k = g\<lparr>inchar_index := k, inchar_endindex := 695, curstate := STATE_INIT_PAUSE\<rparr>" for k
  have t1: "update_statemachine False False g = Inr (s 48)"
    using f by (simp add: init_tick s_def word_div_def)
  have step: "update_statemachine False False (s k)
       = Inr (if k > 695 then (s 48)\<lparr>curstate := STATE_IDLE\<rparr> else s (k + 48))" for k
    using f by (simp add: init_pause_tick s_def)
  have one: "run_ticks (replicate (Suc n) (False, False)) x
       = and_then (update_statemachine False False x) (run_ticks (replicate n (False, False)))" for n x
    by simp
  have r0: "run_ticks (replicate 0 (False, False)) x = Inr x" for x by simp
  have u1: "update_statemachine False False (s 48) = Inr (s 96)"
    by (simp add: step word_less_def)
  have u2: "update_statemachine False False (s 96) = Inr (s 144)"
    by (simp add: step word_less_def)
  have u3: "update_statemachine False False (s 144) = Inr (s 192)"
    by (simp add: step word_less_def)
  have u4: "update_statemachine False False (s 192) = Inr (s 240)"
    by (simp add: step word_less_def)
  have u5: "update_statemachine False False (s 240) = Inr (s 288)"
    by (simp add: step word_less_def)
  have u6: "update_statemachine False False (s 288) = Inr (s 336)"
    by (simp add: step word_less_def)
  have u7: "update_statemachine False False (s 336) = Inr (s 384)"
    by (simp add: step word_less_def)
  have u8: "update_statemachine False False (s 384) = Inr (s 432)"
    by (simp add: step word_less_def)
  have u9: "update_statemachine False False (s 432) = Inr (s 480)"
    by (simp add: step word_less_def)
  have u10: "update_statemachine False False (s 480) = Inr (s 528)"
    by (simp add: step word_less_def)
  have u11: "update_statemachine False False (s 528) = Inr (s 576)"
    by (simp add: step word_less_def)
  have u12: "update_statemachine False False (s 576) = Inr (s 624)"
    by (simp add: step word_less_def)
  have u13: "update_statemachine False False (s 624) = Inr (s 672)"
    by (simp add: step word_less_def)
  have u14: "update_statemachine False False (s 672) = Inr (s 720)"
    by (simp add: step word_less_def)
  have u15: "update_statemachine False False (s 720) = Inr ((s 48)\<lparr>curstate := STATE_IDLE\<rparr>)"
    by (simp add: step word_less_def)
  have b0: "run_ticks (replicate 0 (False, False)) (s 720) = Inr (s 720)" by (rule r0)
  have b1: "run_ticks (replicate (Suc 0) (False, False)) (s 672) = Inr (s 720)"
    by (simp only: one u14 and_then_Inr b0)
  have n1: "Suc 0 = 1" by simp
  note b1 = b1 [unfolded n1]
  have b2: "run_ticks (replicate (Suc 1) (False, False)) (s 624) = Inr (s 720)"
    by (simp only: one u13 and_then_Inr b1)
  have n2: "Suc 1 = 2" by simp
  note b2 = b2 [unfolded n2]
  have b3: "run_ticks (replicate (Suc 2) (False, False)) (s 576) = Inr (s 720)"
    by (simp only: one u12 and_then_Inr b2)
  have n3: "Suc 2 = 3" by simp
  note b3 = b3 [unfolded n3]
  have b4: "run_ticks (replicate (Suc 3) (False, False)) (s 528) = Inr (s 720)"
    by (simp only: one u11 and_then_Inr b3)
  have n4: "Suc 3 = 4" by simp
  note b4 = b4 [unfolded n4]
  have b5: "run_ticks (replicate (Suc 4) (False, False)) (s 480) = Inr (s 720)"
    by (simp only: one u10 and_then_Inr b4)
  have n5: "Suc 4 = 5" by simp
  note b5 = b5 [unfolded n5]
  have b6: "run_ticks (replicate (Suc 5) (False, False)) (s 432) = Inr (s 720)"
    by (simp only: one u9 and_then_Inr b5)
  have n6: "Suc 5 = 6" by simp
  note b6 = b6 [unfolded n6]
  have b7: "run_ticks (replicate (Suc 6) (False, False)) (s 384) = Inr (s 720)"
    by (simp only: one u8 and_then_Inr b6)
  have n7: "Suc 6 = 7" by simp
  note b7 = b7 [unfolded n7]
  have b8: "run_ticks (replicate (Suc 7) (False, False)) (s 336) = Inr (s 720)"
    by (simp only: one u7 and_then_Inr b7)
  have n8: "Suc 7 = 8" by simp
  note b8 = b8 [unfolded n8]
  have b9: "run_ticks (replicate (Suc 8) (False, False)) (s 288) = Inr (s 720)"
    by (simp only: one u6 and_then_Inr b8)
  have n9: "Suc 8 = 9" by simp
  note b9 = b9 [unfolded n9]
  have b10: "run_ticks (replicate (Suc 9) (False, False)) (s 240) = Inr (s 720)"
    by (simp only: one u5 and_then_Inr b9)
  have n10: "Suc 9 = 10" by simp
  note b10 = b10 [unfolded n10]
  have b11: "run_ticks (replicate (Suc 10) (False, False)) (s 192) = Inr (s 720)"
    by (simp only: one u4 and_then_Inr b10)
  have n11: "Suc 10 = 11" by simp
  note b11 = b11 [unfolded n11]
  have b12: "run_ticks (replicate (Suc 11) (False, False)) (s 144) = Inr (s 720)"
    by (simp only: one u3 and_then_Inr b11)
  have n12: "Suc 11 = 12" by simp
  note b12 = b12 [unfolded n12]
  have b13: "run_ticks (replicate (Suc 12) (False, False)) (s 96) = Inr (s 720)"
    by (simp only: one u2 and_then_Inr b12)
  have n13: "Suc 12 = 13" by simp
  note b13 = b13 [unfolded n13]
  have b14: "run_ticks (replicate (Suc 13) (False, False)) (s 48) = Inr (s 720)"
    by (simp only: one u1 and_then_Inr b13)
  have n14: "Suc 13 = 14" by simp
  note b14 = b14 [unfolded n14]
  have n15: "Suc 14 = 15" and n16: "Suc 15 = 16" and n1: "Suc 0 = 1" by simp_all
  have a: "run_ticks (replicate 1 (False, False)) g = Inr (s 48)"
    unfolding n1 [symmetric] by (simp only: one t1 and_then_Inr r0)
  have b: "run_ticks (replicate 15 (False, False)) g = Inr (s 720)"
    unfolding n15 [symmetric] by (simp only: one t1 and_then_Inr b14)
  have c0: "run_ticks (replicate 0 (False, False)) ((s 48)\<lparr>curstate := STATE_IDLE\<rparr>)
      = Inr ((s 48)\<lparr>curstate := STATE_IDLE\<rparr>)" by (rule r0)
  have c1: "run_ticks (replicate (Suc 0) (False, False)) (s 720) = Inr ((s 48)\<lparr>curstate := STATE_IDLE\<rparr>)"
    by (simp only: one u15 and_then_Inr c0)
  note c1 = c1 [unfolded n1]
  have m2: "Suc 1 = 2" by simp
  have c2: "run_ticks (replicate (Suc 1) (False, False)) (s 672) = Inr ((s 48)\<lparr>curstate := STATE_IDLE\<rparr>)"
    by (simp only: one u14 and_then_Inr c1)
  note c2 = c2 [unfolded m2]
  have m3: "Suc 2 = 3" by simp
  have c3: "run_ticks (replicate (Suc 2) (False, False)) (s 624) = Inr ((s 48)\<lparr>curstate := STATE_IDLE\<rparr>)"
    by (simp only: one u13 and_then_Inr c2)
  note c3 = c3 [unfolded m3]
  have m4: "Suc 3 = 4" by simp
  have c4: "run_ticks (replicate (Suc 3) (False, False)) (s 576) = Inr ((s 48)\<lparr>curstate := STATE_IDLE\<rparr>)"
    by (simp only: one u12 and_then_Inr c3)
  note c4 = c4 [unfolded m4]
  have m5: "Suc 4 = 5" by simp
  have c5: "run_ticks (replicate (Suc 4) (False, False)) (s 528) = Inr ((s 48)\<lparr>curstate := STATE_IDLE\<rparr>)"
    by (simp only: one u11 and_then_Inr c4)
  note c5 = c5 [unfolded m5]
  have m6: "Suc 5 = 6" by simp
  have c6: "run_ticks (replicate (Suc 5) (False, False)) (s 480) = Inr ((s 48)\<lparr>curstate := STATE_IDLE\<rparr>)"
    by (simp only: one u10 and_then_Inr c5)
  note c6 = c6 [unfolded m6]
  have m7: "Suc 6 = 7" by simp
  have c7: "run_ticks (replicate (Suc 6) (False, False)) (s 432) = Inr ((s 48)\<lparr>curstate := STATE_IDLE\<rparr>)"
    by (simp only: one u9 and_then_Inr c6)
  note c7 = c7 [unfolded m7]
  have m8: "Suc 7 = 8" by simp
  have c8: "run_ticks (replicate (Suc 7) (False, False)) (s 384) = Inr ((s 48)\<lparr>curstate := STATE_IDLE\<rparr>)"
    by (simp only: one u8 and_then_Inr c7)
  note c8 = c8 [unfolded m8]
  have m9: "Suc 8 = 9" by simp
  have c9: "run_ticks (replicate (Suc 8) (False, False)) (s 336) = Inr ((s 48)\<lparr>curstate := STATE_IDLE\<rparr>)"
    by (simp only: one u7 and_then_Inr c8)
  note c9 = c9 [unfolded m9]
  have m10: "Suc 9 = 10" by simp
  have c10: "run_ticks (replicate (Suc 9) (False, False)) (s 288) = Inr ((s 48)\<lparr>curstate := STATE_IDLE\<rparr>)"
    by (simp only: one u6 and_then_Inr c9)
  note c10 = c10 [unfolded m10]
  have m11: "Suc 10 = 11" by simp
  have c11: "run_ticks (replicate (Suc 10) (False, False)) (s 240) = Inr ((s 48)\<lparr>curstate := STATE_IDLE\<rparr>)"
    by (simp only: one u5 and_then_Inr c10)
  note c11 = c11 [unfolded m11]
  have m12: "Suc 11 = 12" by simp
  have c12: "run_ticks (replicate (Suc 11) (False, False)) (s 192) = Inr ((s 48)\<lparr>curstate := STATE_IDLE\<rparr>)"
    by (simp only: one u4 and_then_Inr c11)
  note c12 = c12 [unfolded m12]
  have m13: "Suc 12 = 13" by simp
  have c13: "run_ticks (replicate (Suc 12) (False, False)) (s 144) = Inr ((s 48)\<lparr>curstate := STATE_IDLE\<rparr>)"
    by (simp only: one u3 and_then_Inr c12)
  note c13 = c13 [unfolded m13]
  have m14: "Suc 13 = 14" by simp
  have c14: "run_ticks (replicate (Suc 13) (False, False)) (s 96) = Inr ((s 48)\<lparr>curstate := STATE_IDLE\<rparr>)"
    by (simp only: one u2 and_then_Inr c13)
  note c14 = c14 [unfolded m14]
  have m15: "Suc 14 = 15" by simp
  have c15: "run_ticks (replicate (Suc 14) (False, False)) (s 48) = Inr ((s 48)\<lparr>curstate := STATE_IDLE\<rparr>)"
    by (simp only: one u1 and_then_Inr c14)
  note c15 = c15 [unfolded m15]
  have c: "run_ticks (replicate 16 (False, False)) g = Inr ((s 48)\<lparr>curstate := STATE_IDLE\<rparr>)"
    unfolding n16 [symmetric] by (simp only: one t1 and_then_Inr c15)
  show ?thesis
    unfolding g_def [symmetric] using a b c f by (simp add: s_def word_div_def)
qed


section \<open>The dit length\<close>

lemma round_up_to_int:
  assumes "0 < p"
  shows "round_up_to (of_int n) p = (n + p - 1) div p * p"
proof -
  define c where "c = (n + p - 1) div p"
  have cb: "n \<le> c * p" "(c - 1) * p < n"
    using ceil_div_bounds [OF assms, of n] by (simp_all add: c_def)
  have pr: "(0::rat) < of_int p" using assms by simp
  have "(of_int n :: rat) \<le> of_int (c * p)" using cb(1) by (simp only: of_int_le_iff)
  then have up: "(of_int n :: rat) / of_int p \<le> of_int c"
    using pr by (simp add: pos_divide_le_eq)
  have "(of_int ((c - 1) * p) :: rat) < of_int n" using cb(2) by (simp only: of_int_less_iff)
  then have lo: "of_int c - 1 < (of_int n :: rat) / of_int p"
    using pr by (simp add: pos_less_divide_eq)
  have "\<lceil>(of_int n :: rat) / of_int p\<rceil> = c"
    using lo up by (rule ceiling_unique)
  then show ?thesis by (simp add: round_up_to_def c_def)
qed

lemma set_wpm_eq: "set_wpm P wpm g = init_buffers P (g\<lparr>cw_wpm := min (max wpm 10) 99\<rparr>)"
  unfolding clamp_wpm [symmetric] by (simp add: set_wpm_def Let_def)

lemma dit_float_20_48000: "\<lfloor>dit_float 20 48000\<rfloor> = 2880"
  by code_simp

lemma dit_float_66_48000: "\<lfloor>dit_float 66 48000\<rfloor> = 872"
  by code_simp

lemma dit_length_stated_66: "dit_length_stated 66 48000 109 = 981"
  by code_simp

text \<open>
  C2, as the code has it. For every sane configuration, after the tables are regenerated
  the dit length is the single-precision value of \<open>(60 / (50 * wpm)) * sample_rate\<close>, cut
  to an integer, and then rounded up to the next whole multiple of the tone period; for 20
  wpm at 48000 samples per second it is \<open>\<lceil>2880 / period\<rceil> * period\<close>, a whole
  multiple of the tone period.
\<close>

theorem dit_length_whole_periods:
  assumes "sane_config P g"
  shows "\<exists>g'. init_buffers P g = Inr g'
     \<and> 0 < uint (signal_buffer_period g')
     \<and> uint (signal_dit_length_index g')
         = dit_length_truncated (uint (cw_wpm g)) (uint (cw_sample_rate g))
             (uint (signal_buffer_period g'))
     \<and> uint (signal_buffer_period g') dvd uint (signal_dit_length_index g')
     \<and> (cw_wpm g = 20 \<and> cw_sample_rate g = 48000 \<longrightarrow>
          uint (signal_dit_length_index g')
            = \<lceil>(2880 :: rat) / of_int (uint (signal_buffer_period g'))\<rceil> * uint (signal_buffer_period g'))"
proof -
  obtain g' where g': "init_buffers P g = Inr g'"
    using init_buffers_returns [OF assms] by blast
  define p where "p = uint (signal_buffer_period g')"
  have p0: "0 < p" using init_buffers_dit_length(3) [OF assms g'] by (simp add: p_def)
  have d: "uint (signal_dit_length_index g')
      = (\<lfloor>dit_float (uint (cw_wpm g)) (uint (cw_sample_rate g))\<rfloor> + p - 1) div p * p"
    using init_buffers_dit_length(2) [OF assms g'] by (simp add: p_def dit_float_def)
  have t: "uint (signal_dit_length_index g')
      = dit_length_truncated (uint (cw_wpm g)) (uint (cw_sample_rate g)) p"
    by (simp add: d dit_length_truncated_def round_up_to_int [OF p0])
  have dv: "p dvd uint (signal_dit_length_index g')" by (simp add: d)
  have s: "uint (signal_dit_length_index g') = \<lceil>(2880 :: rat) / of_int p\<rceil> * p"
    if "cw_wpm g = 20" "cw_sample_rate g = 48000"
    using t that dit_float_20_48000 by (simp add: dit_length_truncated_def round_up_to_def)
  show ?thesis
    using g' p0 t dv s unfolding p_def by blast
qed

theorem dit_length_whole_periods_witness:
  "sane_config reference_platform (projr power_on)
   \<and> (\<exists>g'. init_buffers reference_platform (projr power_on) = Inr g'
        \<and> uint (signal_dit_length_index g')
            = \<lceil>(2880 :: rat) / of_int (uint (signal_buffer_period g'))\<rceil> * uint (signal_buffer_period g'))"
proof -
  have s: "sane_config reference_platform (projr power_on)"
    using power_on_facts by simp
  show ?thesis
    using s dit_length_whole_periods [OF s] power_on_facts by auto
qed

text \<open>
  At 444 Hz and 66 wpm the tone period is 109 samples and the dit is 872.72 samples long.
  The code stores 872, which is 8 periods, and keeps it; rounding 872.72 up gives 9
  periods, 981 samples.
\<close>

theorem dit_length_counterexample:
  "tuned_444_66 = Inr (projr tuned_444_66)
   \<and> cw_wpm (projr tuned_444_66) = 66 \<and> cw_sample_rate (projr tuned_444_66) = 48000
   \<and> signal_buffer_period (projr tuned_444_66) = 109
   \<and> signal_dit_length_index (projr tuned_444_66) = 872
   \<and> dit_length_stated 66 48000 109 = 981"
proof -
  define g0 where "g0 = projr power_on"
  have f0: "power_on = Inr g0" "sane_config reference_platform g0" "cw_sample_rate g0 = 48000"
    using power_on_facts by (simp_all add: g0_def)
  obtain g1 where g1: "set_frequency reference_platform 444 g0 = Inr g1"
    "get_frequency g1 = limit_frequency reference_platform 444" "sane_config reference_platform g1"
    using set_frequency_returns [OF f0(2)] by blast
  have k1: "cw_sample_rate g1 = 48000"
    using g1(1) init_buffers_keeps(2) [of reference_platform "g0\<lparr>cw_frequency := 444\<rparr>" g1] f0(3)
    by (simp add: set_frequency_def)
  have fr: "cw_frequency g1 = 444"
    using g1(2) by (simp add: get_frequency_def limit_frequency_def reference_platform_def)
  define g2 where "g2 = g1\<lparr>cw_wpm := 66\<rparr>"
  have s2: "sane_config reference_platform g2"
    using g1(3) by (simp add: sane_config_def g2_def)
  have e: "set_wpm reference_platform 66 g1 = init_buffers reference_platform g2"
    by (simp add: set_wpm_eq g2_def)
  obtain g3 where g3: "init_buffers reference_platform g2 = Inr g3"
    using init_buffers_returns [OF s2] by blast
  have lf: "limit_frequency reference_platform (cw_frequency g2) = 444"
    by (simp add: g2_def fr limit_frequency_def reference_platform_def)
  have per: "uint (signal_buffer_period g3) = 109"
    using init_buffers_dit_length(1) [OF s2 g3] by (simp add: lf) (simp add: g2_def k1)
  have dit: "uint (signal_dit_length_index g3) = 872"
    using init_buffers_dit_length(2) [OF s2 g3] dit_float_66_48000
    by (simp add: per dit_float_def) (simp add: g2_def k1)
  have per': "signal_buffer_period g3 = 109" using per by (simp add: word_uint_eq_iff)
  have dit': "signal_dit_length_index g3 = 872" using dit by (simp add: word_uint_eq_iff)
  have w: "cw_wpm g3 = 66" "cw_sample_rate g3 = 48000"
    using init_buffers_keeps(1,2) [OF g3] by (simp_all add: g2_def k1)
  have t: "tuned_444_66 = Inr g3"
    by (simp add: tuned_444_66_def f0(1) WK12_FREQUENCY_LIST_def g1(1) e g3)
  have p: "projr tuned_444_66 = g3" by (simp only: t sum.sel)
  show ?thesis
    unfolding p using t per' dit' w dit_length_stated_66 by simp
qed


section \<open>The audio buffer\<close>

declare of_int_sint [simp del]


lemma tbl_in: "0 \<le> k \<Longrightarrow> k < int (length xs) \<Longrightarrow> tbl xs k = Inr (xs ! nat k)"
  by (simp add: tbl_def)











end
